theory Spec2Isabelle
  imports Complex_Main "HOL-Library.AList" "HOL-Library.Multiset" "HOL-Library.Product_Lexorder"
begin

section \<open>Common data\<close>

text \<open>
  The platform analyser is Python. Its floats are modelled as \<^typ>\<open>real\<close>, its
  dictionaries with a fixed set of keys as records (a key that the code reads with
  \<open>.get(key, default)\<close> is an optional field), its other dictionaries as association
  lists in insertion order, and every exception as a value of \<open>py_error\<close>.
\<close>

datatype py_error =
    TypeError | KeyError | ZeroDivisionError | NodeNotFound | IndexError | ValueError

section \<open>Opening features (utils/geometry\_utils.py)\<close>

type_synonym vertex = "real \<times> real \<times> real"

datatype feature_value = Num real | Vec "real list"

type_synonym feature_dict = "(string \<times> feature_value) list"

text \<open>
  \<open>compute_opening_features\<close> returns the all-zero dictionary when fewer than three
  vertices are given. With three or more it runs a convex hull and a principal component
  analysis of the SciPy and NumPy libraries; that branch is the parameter \<open>hull_features\<close>.
\<close>

definition compute_opening_features ::
  "(vertex list \<Rightarrow> py_error + feature_dict) \<Rightarrow> vertex list \<Rightarrow> py_error + feature_dict" where
  "compute_opening_features hull_features vertices =
     (if length vertices < 3 then
        Inr [(''area'', Num 0), (''perimeter'', Num 0), (''width'', Num 0),
             (''height'', Num 0), (''aspect_ratio'', Num 0), (''circularity'', Num 0)]
      else hull_features vertices)"

section \<open>Validation of the assembled record (data\_output/space\_data\_generator.py)\<close>

text \<open>
  The entries of the assembled record as \<open>validate_space_data\<close> reads them: every key
  is looked up with a default, the identifier with a membership test.
\<close>

record out_space =
  os_id :: "string option"
  os_volume :: "real option"
  os_ventilationRate :: "real option"

record out_connection =
  oc_id :: "string option"
  oc_connects :: "string list option"

record space_data =
  sd_spaces :: "out_space list"
  sd_connections :: "out_connection list"

datatype message =
    SpaceWithoutId
  | DuplicateSpaceId string
  | UnreasonableVolume string real
  | NegativeAch string real
  | AchTooHigh string real
  | ConnectionWithoutId
  | DuplicateConnectionId string
  | DanglingReference string string

record validation =
  v_errors :: "message list"
  v_warnings :: "message list"
  v_is_valid :: bool

definition startswith :: "string \<Rightarrow> string \<Rightarrow> bool" where
  "startswith s p = (take (length p) s = p)"

text \<open>The loop over the spaces; the state is (errors, warnings, space\_ids).\<close>

fun check_spaces ::
  "out_space list \<Rightarrow> message list \<times> message list \<times> string set
     \<Rightarrow> message list \<times> message list \<times> string set" where
  "check_spaces [] st = st"
| "check_spaces (space # rest) (errors, warnings, space_ids) =
     (case os_id space of
        None \<Rightarrow> check_spaces rest (errors @ [SpaceWithoutId], warnings, space_ids)
      | Some i \<Rightarrow>
          (let errors1 = (if i \<in> space_ids then errors @ [DuplicateSpaceId i] else errors);
               space_ids1 = insert i space_ids;
               volume = (case os_volume space of None \<Rightarrow> 0 | Some v \<Rightarrow> v);
               warnings1 = (if volume \<le> 0 then warnings @ [UnreasonableVolume i volume]
                            else warnings);
               ach = (case os_ventilationRate space of None \<Rightarrow> 0 | Some a \<Rightarrow> a);
               warnings2 = (if ach < 0 then warnings1 @ [NegativeAch i ach]
                            else if ach > 20 then warnings1 @ [AchTooHigh i ach]
                            else warnings1)
           in check_spaces rest (errors1, warnings2, space_ids1)))"

definition dangling :: "string set \<Rightarrow> string \<Rightarrow> string list \<Rightarrow> message list" where
  "dangling space_ids cid connects =
     map (DanglingReference cid)
       (filter (\<lambda>space_id. space_id \<notin> space_ids \<and> \<not> startswith space_id ''space_exterior'')
          connects)"

text \<open>The loop over the connections; the state is (errors, conn\_ids).\<close>

fun check_connections ::
  "string set \<Rightarrow> out_connection list \<Rightarrow> message list \<times> string set
     \<Rightarrow> message list \<times> string set" where
  "check_connections space_ids [] st = st"
| "check_connections space_ids (conn # rest) (errors, conn_ids) =
     (case oc_id conn of
        None \<Rightarrow> check_connections space_ids rest (errors @ [ConnectionWithoutId], conn_ids)
      | Some c \<Rightarrow>
          (let errors1 = (if c \<in> conn_ids then errors @ [DuplicateConnectionId c] else errors);
               conn_ids1 = insert c conn_ids;
               connects = (case oc_connects conn of None \<Rightarrow> [] | Some cs \<Rightarrow> cs)
           in check_connections space_ids rest
                (errors1 @ dangling space_ids c connects, conn_ids1)))"

definition validate_space_data :: "space_data \<Rightarrow> validation" where
  "validate_space_data d =
     (case check_spaces (sd_spaces d) ([], [], {}) of
        (errors, warnings, space_ids) \<Rightarrow>
          (case check_connections space_ids (sd_connections d) (errors, {}) of
             (errors1, conn_ids) \<Rightarrow>
               \<lparr> v_errors = errors1, v_warnings = warnings, v_is_valid = (errors1 = []) \<rparr>))"

text \<open>The conditions the code turns into errors, and the ones it only warns about.\<close>

definition space_ids_of :: "space_data \<Rightarrow> string list" where
  "space_ids_of d = List.map_filter os_id (sd_spaces d)"

definition connection_ids_of :: "space_data \<Rightarrow> string list" where
  "connection_ids_of d = List.map_filter oc_id (sd_connections d)"

definition endpoints_resolve :: "space_data \<Rightarrow> bool" where
  "endpoints_resolve d =
     (\<forall>c \<in> set (sd_connections d).
        \<forall>e \<in> set (case oc_connects c of None \<Rightarrow> [] | Some cs \<Rightarrow> cs).
          e \<in> set (space_ids_of d) \<or> startswith e ''space_exterior'')"

definition ids_present :: "space_data \<Rightarrow> bool" where
  "ids_present d =
     ((\<forall>s \<in> set (sd_spaces d). os_id s \<noteq> None) \<and>
      (\<forall>c \<in> set (sd_connections d). oc_id c \<noteq> None))"

definition volumes_positive :: "space_data \<Rightarrow> bool" where
  "volumes_positive d =
     (\<forall>s \<in> set (sd_spaces d). (case os_volume s of None \<Rightarrow> 0 | Some v \<Rightarrow> v) > 0)"

definition ach_in_range :: "space_data \<Rightarrow> bool" where
  "ach_in_range d =
     (\<forall>s \<in> set (sd_spaces d).
        0 \<le> (case os_ventilationRate s of None \<Rightarrow> 0 | Some a \<Rightarrow> a) \<and>
        (case os_ventilationRate s of None \<Rightarrow> 0 | Some a \<Rightarrow> a) \<le> 20)"

section \<open>Spaces, openings and ventilation paths\<close>

text \<open>
  A space and an opening as the detectors hand them on. The identifier is read with
  \<open>space["id"]\<close>; the other keys are read with a default here or there, so they are
  optional fields.
\<close>

record space =
  s_id :: string
  s_volume :: "real option"
  s_center :: "real list option"
  s_dimensions :: "real list option"
  s_type :: "string option"
  s_bbox_min :: "real list option"
  s_bbox_max :: "real list option"

record opening_dict =
  o_id :: string
  o_type :: "string option"
  o_connects :: "string list option"
  o_position :: "real list option"
  o_area :: "real option"
  o_state :: "string option"

record opening_info =
  oi_id :: string
  oi_type :: string
  oi_estimated_area :: real

text \<open>The path object that \<open>_find_ventilation_paths\<close> builds.\<close>

record vent_path =
  p_route :: "string list"
  p_via :: "string list"
  p_openings :: "opening_info list"
  p_weight :: real
  p_length :: nat
  p_decay_factor :: real
  p_total_opening_area :: real
  p_exterior :: string

section \<open>Assembling the record (data\_output/space\_data\_generator.py)\<close>

record primary_path =
  pp_route :: "string list"
  pp_via :: "string list"
  pp_length :: nat

record ventilation_info =
  vi_primaryPath :: primary_path
  vi_pathCount :: nat

record processed_space =
  ps_id :: string
  ps_type :: string
  ps_volume :: real
  ps_bbox_min :: "real list"
  ps_bbox_max :: "real list"
  ps_ventilationRate :: real
  ps_connections :: "string list"
  ps_ventilationInfo :: "ventilation_info option"

record processed_opening =
  po_id :: string
  po_type :: string
  po_connects :: "string list"
  po_position :: "real list"
  po_area :: real
  po_state :: string

record processed_path =
  pr_route :: "string list"
  pr_via :: "string list"
  pr_contribution :: real

record space_paths =
  sp_spaceId :: string
  sp_paths :: "processed_path list"

record 'm result_data =
  rd_metadata :: 'm
  rd_spaces :: "processed_space list"
  rd_connections :: "processed_opening list"
  rd_ventilationPaths :: "space_paths list"

definition get_default :: "'a \<Rightarrow> 'a option \<Rightarrow> 'a" where
  "get_default d x = (case x of None \<Rightarrow> d | Some v \<Rightarrow> v)"

definition process_space ::
  "(string \<times> real) list \<Rightarrow> (string \<times> vent_path list) list \<Rightarrow> space \<Rightarrow> processed_space" where
  "process_space ach_rates ventilation_paths space =
     (let space_id = s_id space;
          ach_rate = get_default 0 (map_of ach_rates space_id);
          connections = [];
          paths = get_default [] (map_of ventilation_paths space_id);
          ventilation_info =
            (case paths of
               [] \<Rightarrow> None
             | primary # _ \<Rightarrow>
                 Some \<lparr> vi_primaryPath =
                          \<lparr> pp_route = p_route primary, pp_via = p_via primary,
                            pp_length = p_length primary \<rparr>,
                        vi_pathCount = length paths \<rparr>)
      in \<lparr> ps_id = space_id,
           ps_type = get_default ''unknown'' (s_type space),
           ps_volume = get_default 0 (s_volume space),
           ps_bbox_min = get_default [0, 0, 0] (s_bbox_min space),
           ps_bbox_max = get_default [0, 0, 0] (s_bbox_max space),
           ps_ventilationRate = ach_rate,
           ps_connections = connections,
           ps_ventilationInfo = ventilation_info \<rparr>)"

definition process_spaces ::
  "space list \<Rightarrow> (string \<times> real) list \<Rightarrow> (string \<times> vent_path list) list
     \<Rightarrow> processed_space list" where
  "process_spaces spaces ach_rates ventilation_paths =
     map (process_space ach_rates ventilation_paths) spaces"

definition process_opening :: "opening_dict \<Rightarrow> processed_opening" where
  "process_opening opening =
     \<lparr> po_id = o_id opening,
       po_type = get_default ''unknown'' (o_type opening),
       po_connects = get_default [] (o_connects opening),
       po_position = get_default [0, 0, 0] (o_position opening),
       po_area = get_default 0 (o_area opening),
       po_state = get_default ''open'' (o_state opening) \<rparr>"

text \<open>
  \<open>_process_openings\<close> appends the processed opening and then, for each endpoint, looks
  the space up with \<open>for space in self._process_spaces\<close>. That name is the method of
  the class, not the list of processed spaces, and a method is not iterable: the first
  endpoint of the first opening that has one raises TypeError.
\<close>

fun process_openings ::
  "opening_dict list \<Rightarrow> processed_opening list \<Rightarrow> py_error + processed_opening list" where
  "process_openings [] processed_openings = Inr processed_openings"
| "process_openings (opening # rest) processed_openings =
     (case get_default [] (o_connects opening) of
        [] \<Rightarrow> process_openings rest (processed_openings @ [process_opening opening])
      | space_id # _ \<Rightarrow> Inl TypeError)"

text \<open>The Python float division \<open>1.0 / x\<close>.\<close>

definition py_inverse :: "real \<Rightarrow> py_error + real" where
  "py_inverse x = (if x = 0 then Inl ZeroDivisionError else Inr (1 / x))"

fun sequence_err :: "('e + 'a) list \<Rightarrow> 'e + 'a list" where
  "sequence_err [] = Inr []"
| "sequence_err (x # xs) =
     (case x of
        Inl e \<Rightarrow> Inl e
      | Inr v \<Rightarrow> (case sequence_err xs of Inl e \<Rightarrow> Inl e | Inr vs \<Rightarrow> Inr (v # vs)))"

definition process_space_paths :: "string \<times> vent_path list \<Rightarrow> py_error + space_paths list" where
  "process_space_paths item =
     (case item of (space_id, paths) \<Rightarrow>
        (case sequence_err (map (\<lambda>path. py_inverse (p_weight path + 0.1)) paths) of
           Inl e \<Rightarrow> Inl e
         | Inr path_contributions \<Rightarrow>
             (let total_contribution = sum_list path_contributions;
                  normalized_contributions =
                    (if total_contribution > 0
                     then map (\<lambda>c. c / total_contribution) path_contributions else []);
                  space_paths =
                    map (\<lambda>(path, contribution).
                           \<lparr> pr_route = p_route path, pr_via = p_via path,
                             pr_contribution = contribution \<rparr>)
                      (zip paths normalized_contributions)
              in Inr (if space_paths \<noteq> []
                      then [\<lparr> sp_spaceId = space_id, sp_paths = space_paths \<rparr>] else []))))"

definition process_ventilation_paths ::
  "(string \<times> vent_path list) list \<Rightarrow> py_error + space_paths list" where
  "process_ventilation_paths ventilation_paths =
     (case sequence_err (map process_space_paths ventilation_paths) of
        Inl e \<Rightarrow> Inl e
      | Inr pss \<Rightarrow> Inr (concat pss))"

text \<open>
  \<open>generate_space_data\<close>. The metadata (a time stamp and an echo of the configuration)
  is a parameter; the entries of the result are computed in the order of the source.
\<close>

definition generate_space_data ::
  "'m \<Rightarrow> space list \<Rightarrow> opening_dict list \<Rightarrow> (string \<times> real) list
     \<Rightarrow> (string \<times> vent_path list) list \<Rightarrow> py_error + 'm result_data" where
  "generate_space_data metadata spaces openings ach_rates ventilation_paths =
     (let processed_spaces = process_spaces spaces ach_rates ventilation_paths
      in case process_openings openings [] of
           Inl e \<Rightarrow> Inl e
         | Inr connections \<Rightarrow>
             (case process_ventilation_paths ventilation_paths of
                Inl e \<Rightarrow> Inl e
              | Inr paths \<Rightarrow>
                  Inr \<lparr> rd_metadata = metadata, rd_spaces = processed_spaces,
                        rd_connections = connections, rd_ventilationPaths = paths \<rparr>))"

text \<open>The openings incident to a space: those whose endpoint list contains its identifier.\<close>

definition incident_openings :: "opening_dict list \<Rightarrow> string \<Rightarrow> string list" where
  "incident_openings openings space_id =
     map o_id (filter (\<lambda>opening. space_id \<in> set (get_default [] (o_connects opening))) openings)"

section \<open>The calculator's state and the opening-state override (ventilation/ach\_calculator.py)\<close>

record calculator =
  ach_rates :: "(string \<times> real) list"
  ventilation_paths :: "(string \<times> vent_path list) list"

definition path_affected :: "(string \<rightharpoonup> string) \<Rightarrow> vent_path list \<Rightarrow> bool" where
  "path_affected opening_states paths =
     list_ex (\<lambda>path. list_ex (\<lambda>opening_id. opening_states opening_id = Some ''closed'')
                        (p_via path)) paths"

text \<open>
  The loop over \<open>self.ventilation_paths.items()\<close>, on the copy \<open>updated_rates\<close>;
  \<open>updated_rates[space_id] *= 0.7\<close> raises KeyError when the key is missing.
\<close>

fun update_rates ::
  "(string \<rightharpoonup> string) \<Rightarrow> (string \<times> vent_path list) list \<Rightarrow> (string \<times> real) list
     \<Rightarrow> py_error + (string \<times> real) list" where
  "update_rates opening_states [] updated_rates = Inr updated_rates"
| "update_rates opening_states ((space_id, paths) # rest) updated_rates =
     (if path_affected opening_states paths then
        (case map_of updated_rates space_id of
           None \<Rightarrow> Inl KeyError
         | Some a \<Rightarrow>
             update_rates opening_states rest (AList.update space_id (a * 0.7) updated_rates))
      else update_rates opening_states rest updated_rates)"

text \<open>The call returns the derived map and leaves the calculator as it is.\<close>

definition update_ach_for_opening_state ::
  "calculator \<Rightarrow> (string \<rightharpoonup> string) \<Rightarrow> (py_error + (string \<times> real) list) \<times> calculator" where
  "update_ach_for_opening_state self opening_states =
     (update_rates opening_states (ventilation_paths self) (ach_rates self), self)"

section \<open>Exterior removal and space detection (space\_analysis/space\_detector.py)\<close>

text \<open>
  A boolean NumPy array is its shape and its content, a function from indices to
  booleans of which only the values inside the shape matter. \<open>np_index\<close> is NumPy's
  indexing: a negative index counts from the end, an index outside the axis raises
  IndexError.
\<close>

type_synonym voxel = "int \<times> int \<times> int"
type_synonym shape = "nat \<times> nat \<times> nat"
type_synonym grid = "voxel \<Rightarrow> bool"

fun in_bounds :: "shape \<Rightarrow> voxel \<Rightarrow> bool" where
  "in_bounds (n0, n1, n2) (x, y, z) =
     (0 \<le> x \<and> x < int n0 \<and> 0 \<le> y \<and> y < int n1 \<and> 0 \<le> z \<and> z < int n2)"

definition np_axis :: "nat \<Rightarrow> int \<Rightarrow> int option" where
  "np_axis n i = (if 0 \<le> i \<and> i < int n then Some i
                  else if - int n \<le> i \<and> i < 0 then Some (int n + i) else None)"

fun np_index :: "shape \<Rightarrow> voxel \<Rightarrow> voxel option" where
  "np_index (n0, n1, n2) (x, y, z) =
     (case (np_axis n0 x, np_axis n1 y, np_axis n2 z) of
        (Some i, Some j, Some k) \<Rightarrow> Some (i, j, k)
      | _ \<Rightarrow> None)"

fun neighbors6 :: "voxel \<Rightarrow> voxel list" where
  "neighbors6 (x, y, z) =
     [(x + 1, y, z), (x - 1, y, z), (x, y + 1, z), (x, y - 1, z), (x, y, z + 1), (x, y, z - 1)]"

definition true_cells :: "shape \<Rightarrow> grid \<Rightarrow> voxel set" where
  "true_cells sh g = {c. in_bounds sh c \<and> g c}"

lemma finite_bounds: "finite {c. in_bounds sh c}"
proof -
  obtain n0 n1 n2 where sh: "sh = (n0, n1, n2)" by (cases sh)
  have "{c. in_bounds sh c} \<subseteq> {0..<int n0} \<times> {0..<int n1} \<times> {0..<int n2}"
    by (auto simp: sh)
  then show ?thesis by (rule finite_subset) simp
qed

lemma finite_true_cells: "finite (true_cells sh g)"
  by (rule finite_subset [OF _ finite_bounds [of sh]]) (auto simp: true_cells_def)

lemma np_index_in_bounds: "np_index sh v = Some c \<Longrightarrow> in_bounds sh c"
  by (cases sh; cases v) (auto simp: np_axis_def split: option.splits if_splits)

lemma true_cells_clear:
  "in_bounds sh c \<Longrightarrow> g c \<Longrightarrow> card (true_cells sh (g(c := False))) < card (true_cells sh g)"
proof -
  assume a: "in_bounds sh c" "g c"
  have "true_cells sh (g(c := False)) = true_cells sh g - {c}"
    by (auto simp: true_cells_def)
  moreover have "c \<in> true_cells sh g" using a by (simp add: true_cells_def)
  ultimately show ?thesis
    using card_Diff1_less [OF finite_true_cells, of c sh g] by simp
qed

function flood_loop :: "shape \<Rightarrow> grid \<Rightarrow> voxel list \<Rightarrow> py_error + grid" where
  "flood_loop shape grid [] = Inr grid"
| "flood_loop shape grid (v # queue) =
     (case np_index shape v of
        None \<Rightarrow> Inl IndexError
      | Some c \<Rightarrow>
          (if \<not> grid c then flood_loop shape grid queue
           else flood_loop shape (grid(c := False))
                  (queue @ filter (\<lambda>n. in_bounds shape n \<and> (grid(c := False)) n)
                             (neighbors6 v))))"
  by pat_completeness auto
termination
proof (relation "inv_image (less_than <*lex*> less_than)
    (\<lambda>(sh, g, q). (card (true_cells sh g), length q))")
  show "wf (inv_image (less_than <*lex*> less_than)
    (\<lambda>(sh, g, q). (card (true_cells sh g), length q)))"
    by (intro wf_inv_image wf_lex_prod wf_less_than)
next
  fix shape :: shape and grid :: grid and v queue x2
  assume "np_index shape v = Some x2" "\<not> grid x2"
  then show "((shape, grid, queue), shape, grid, v # queue)
       \<in> inv_image (less_than <*lex*> less_than)
           (\<lambda>(sh, g, q). (card (true_cells sh g), length q))"
    by simp
next
  fix shape :: shape and grid :: grid and v queue x2
  assume "np_index shape v = Some x2" "\<not> \<not> grid x2"
  then show "((shape, grid(x2 := False),
         queue @ filter (\<lambda>n. in_bounds shape n \<and> (grid(x2 := False)) n) (neighbors6 v)),
        shape, grid, v # queue)
       \<in> inv_image (less_than <*lex*> less_than)
           (\<lambda>(sh, g, q). (card (true_cells sh g), length q))"
    using true_cells_clear [OF np_index_in_bounds, of shape v x2 grid] by simp
qed

text \<open>
  \<open>_flood_fill_3d\<close>: nothing to do when the start point is not empty; otherwise the
  breadth-first loop above, started on the queue that holds the start point.
\<close>

definition flood_fill_3d :: "shape \<Rightarrow> grid \<Rightarrow> voxel \<Rightarrow> py_error + grid" where
  "flood_fill_3d shape grid start_point =
     (case np_index shape start_point of
        None \<Rightarrow> Inl IndexError
      | Some c \<Rightarrow> if \<not> grid c then Inr grid else flood_loop shape grid [start_point])"

fun all_indices :: "shape \<Rightarrow> voxel list" where
  "all_indices (n0, n1, n2) =
     concat (map (\<lambda>x. concat (map (\<lambda>y. map (\<lambda>z. (int x, int y, int z)) [0..<n2]) [0..<n1]))
               [0..<n0])"

fun on_boundary :: "shape \<Rightarrow> voxel \<Rightarrow> bool" where
  "on_boundary (n0, n1, n2) (x, y, z) =
     (x = 0 \<or> x = int n0 - 1 \<or> y = 0 \<or> y = int n1 - 1 \<or> z = 0 \<or> z = int n2 - 1)"

definition boundary_seeds :: "shape \<Rightarrow> grid \<Rightarrow> voxel list" where
  "boundary_seeds shape empty_space =
     filter (\<lambda>v. on_boundary shape v \<and> empty_space v) (all_indices shape)"

fun flood_all :: "shape \<Rightarrow> grid \<Rightarrow> voxel list \<Rightarrow> py_error + grid" where
  "flood_all shape grid [] = Inr grid"
| "flood_all shape grid (seed # seeds) =
     (case flood_fill_3d shape grid seed of
        Inl e \<Rightarrow> Inl e
      | Inr grid1 \<Rightarrow> flood_all shape grid1 seeds)"

fun has_empty_axis :: "shape \<Rightarrow> bool" where
  "has_empty_axis (n0, n1, n2) = (n0 = 0 \<or> n1 = 0 \<or> n2 = 0)"

definition remove_external_space ::
  "(voxel list \<Rightarrow> voxel list) \<Rightarrow> nat \<Rightarrow> shape \<Rightarrow> grid \<Rightarrow> py_error + grid" where
  "remove_external_space shuffle max_seed_points shape empty_space =
     (if has_empty_axis shape then Inl IndexError
      else
        (let seeds = boundary_seeds shape empty_space;
             seeds1 = (if length seeds > max_seed_points
                       then take max_seed_points (shuffle seeds) else seeds)
         in flood_all shape empty_space seeds1))"

text \<open>
  \<open>find_connected_components\<close> calls \<open>scipy.ndimage.label\<close>, the parameter \<open>label\<close>
  here (it returns the labelled array and the number of features), and collects for
  each label 1..n the indices that carry it, in the order of \<open>np.where\<close>.
  \<open>detect_spaces\<close> is modelled up to the list of spaces it returns.
\<close>

definition argwhere :: "shape \<Rightarrow> grid \<Rightarrow> voxel list" where
  "argwhere shape grid = filter grid (all_indices shape)"

record voxel_data =
  vd_shape :: shape
  vd_voxel_grid :: "grid option"
  vd_base_voxel_size :: real
  vd_origin :: "real \<times> real \<times> real"

record detector_config =
  min_space_volume :: real
  max_seed_points :: nat

record detected_space =
  d_id :: string
  d_volume :: real
  d_center :: "real list"
  d_bbox_min :: "real list"
  d_bbox_max :: "real list"
  d_dimensions :: "real list"
  d_voxel_count :: nat
  d_voxel_indices :: "voxel list"
  d_type :: string
  d_merged_from :: "string list option"

definition find_connected_components ::
  "(shape \<Rightarrow> grid \<Rightarrow> (voxel \<Rightarrow> nat) \<times> nat) \<Rightarrow> shape \<Rightarrow> grid \<Rightarrow> voxel list list" where
  "find_connected_components label shape voxel_grid =
     (case label shape voxel_grid of
        (labeled_array, num_features) \<Rightarrow>
          map (\<lambda>i. filter (\<lambda>v. labeled_array v = i) (all_indices shape))
            [1..<num_features + 1])"

definition digit_char :: "nat \<Rightarrow> char" where
  "digit_char d = char_of (48 + d)"

function decimal :: "nat \<Rightarrow> string" where
  "decimal n = (if n < 10 then [digit_char n] else decimal (n div 10) @ [digit_char (n mod 10)])"
  by pat_completeness auto
termination
  by (relation "measure id") auto

definition format_03d :: "nat \<Rightarrow> string" where
  "format_03d n = replicate (3 - length (decimal n)) CHR ''0'' @ decimal n"

fun column :: "nat \<Rightarrow> 'a \<times> 'a \<times> 'a \<Rightarrow> 'a" where
  "column 0 (x, y, z) = x"
| "column (Suc 0) (x, y, z) = y"
| "column (Suc (Suc n)) (x, y, z) = z"

fun list_min :: "real list \<Rightarrow> real" where
  "list_min [] = 0"
| "list_min (x # xs) = fold min xs x"

fun list_max :: "real list \<Rightarrow> real" where
  "list_max [] = 0"
| "list_max (x # xs) = fold max xs x"

definition list_mean :: "real list \<Rightarrow> real" where
  "list_mean xs = sum_list xs / real (length xs)"

definition axis_min :: "(real \<times> real \<times> real) list \<Rightarrow> real list" where
  "axis_min ps = map (\<lambda>k. list_min (map (column k) ps)) [0, 1, 2]"

definition axis_max :: "(real \<times> real \<times> real) list \<Rightarrow> real list" where
  "axis_max ps = map (\<lambda>k. list_max (map (column k) ps)) [0, 1, 2]"

definition axis_mean :: "(real \<times> real \<times> real) list \<Rightarrow> real list" where
  "axis_mean ps = map (\<lambda>k. list_mean (map (column k) ps)) [0, 1, 2]"

fun real_coord :: "real \<times> real \<times> real \<Rightarrow> real \<Rightarrow> voxel \<Rightarrow> real \<times> real \<times> real" where
  "real_coord (ox, oy, oz) voxel_size (x, y, z) =
     (ox + (real_of_int x + 0.5) * voxel_size, oy + (real_of_int y + 0.5) * voxel_size,
      oz + (real_of_int z + 0.5) * voxel_size)"

text \<open>
  The loop over the components. \<open>np.min\<close> over no coordinates raises ValueError; a
  component of \<open>scipy.ndimage.label\<close> has at least one voxel.
\<close>

fun build_spaces ::
  "real \<Rightarrow> real \<Rightarrow> real \<times> real \<times> real \<Rightarrow> voxel list list \<Rightarrow> nat
     \<Rightarrow> py_error + detected_space list" where
  "build_spaces min_volume base_voxel_size origin [] valid_spaces_count = Inr []"
| "build_spaces min_volume base_voxel_size origin (component # rest) valid_spaces_count =
     (let volume = real (length component) * base_voxel_size ^ 3
      in if volume < min_volume
         then build_spaces min_volume base_voxel_size origin rest valid_spaces_count
         else if component = [] then Inl ValueError
         else
           (let real_coords = map (real_coord origin base_voxel_size) component;
                bbox_min = axis_min real_coords;
                bbox_max = axis_max real_coords;
                space =
                  \<lparr> d_id = ''space_'' @ format_03d valid_spaces_count,
                    d_volume = volume,
                    d_center = axis_mean real_coords,
                    d_bbox_min = bbox_min,
                    d_bbox_max = bbox_max,
                    d_dimensions = map (\<lambda>(hi, lo). hi - lo) (zip bbox_max bbox_min),
                    d_voxel_count = length component,
                    d_voxel_indices = component,
                    d_type = ''unknown'',
                    d_merged_from = None \<rparr>
            in case build_spaces min_volume base_voxel_size origin rest
                      (Suc valid_spaces_count) of
                 Inl e \<Rightarrow> Inl e
               | Inr spaces \<Rightarrow> Inr (space # spaces)))"

definition detect_spaces ::
  "detector_config \<Rightarrow> (shape \<Rightarrow> grid \<Rightarrow> (voxel \<Rightarrow> nat) \<times> nat) \<Rightarrow> (voxel list \<Rightarrow> voxel list)
     \<Rightarrow> voxel_data \<Rightarrow> py_error + detected_space list" where
  "detect_spaces config label shuffle voxel_data =
     (case vd_voxel_grid voxel_data of
        None \<Rightarrow> Inr []
      | Some voxel_grid \<Rightarrow>
          (let empty_space = (\<lambda>v. \<not> voxel_grid v)
           in case remove_external_space shuffle (max_seed_points config)
                     (vd_shape voxel_data) empty_space of
                Inl e \<Rightarrow> Inl e
              | Inr filled_spaces \<Rightarrow>
                  build_spaces (min_space_volume config) (vd_base_voxel_size voxel_data)
                    (vd_origin voxel_data)
                    (find_connected_components label (vd_shape voxel_data) filled_spaces)
                    0))"


section \<open>The connectivity graph (a NetworkX graph)\<close>

text \<open>
  An undirected \<open>networkx.Graph\<close>: for every node, in insertion order, its attribute
  dictionary and its adjacency dictionary (neighbour and edge attributes, in insertion
  order). An edge is stored at both of its ends with the same attributes. The edge
  attributes that the code reads are fields; \<open>None\<close> is a missing key.
\<close>

datatype attr = AStr string | ANum real | AInf | AVec "real list" | ANat nat

record edge_data =
  e_openings :: "string list option"
  e_count :: "nat option"
  e_weight :: "real option"
  e_opening_types :: "string list option"
  e_is_repair :: "bool option"

type_synonym node_entry = "(string \<times> attr) list \<times> (string \<times> edge_data) list"

type_synonym graph = "(string \<times> node_entry) list"

definition nodes :: "graph \<Rightarrow> string list" where
  "nodes g = map fst g"

definition has_node :: "graph \<Rightarrow> string \<Rightarrow> bool" where
  "has_node g n = (n \<in> set (nodes g))"

definition adj :: "graph \<Rightarrow> string \<Rightarrow> (string \<times> edge_data) list" where
  "adj g n = (case map_of g n of None \<Rightarrow> [] | Some (attrs, nbrs) \<Rightarrow> nbrs)"

definition neighbors :: "graph \<Rightarrow> string \<Rightarrow> string list" where
  "neighbors g n = map fst (adj g n)"

definition has_edge :: "graph \<Rightarrow> string \<Rightarrow> string \<Rightarrow> bool" where
  "has_edge g u v = (v \<in> set (neighbors g u))"

definition get_edge_data :: "graph \<Rightarrow> string \<Rightarrow> string \<Rightarrow> edge_data option" where
  "get_edge_data g u v = map_of (adj g u) v"

definition dict_update :: "('k \<times> 'v) list \<Rightarrow> ('k \<times> 'v) list \<Rightarrow> ('k \<times> 'v) list" where
  "dict_update d new = fold (\<lambda>(k, v). AList.update k v) new d"

definition add_node :: "graph \<Rightarrow> string \<Rightarrow> (string \<times> attr) list \<Rightarrow> graph" where
  "add_node g n attrs =
     (case map_of g n of
        None \<Rightarrow> g @ [(n, attrs, [])]
      | Some (old, nbrs) \<Rightarrow> AList.update n (dict_update old attrs, nbrs) g)"

definition no_attributes :: edge_data where
  "no_attributes =
     \<lparr> e_openings = None, e_count = None, e_weight = None, e_opening_types = None,
       e_is_repair = None \<rparr>"

definition override :: "'a option \<Rightarrow> 'a option \<Rightarrow> 'a option" where
  "override old new = (case new of None \<Rightarrow> old | Some v \<Rightarrow> Some v)"

definition edge_update :: "edge_data \<Rightarrow> edge_data \<Rightarrow> edge_data" where
  "edge_update old new =
     \<lparr> e_openings = override (e_openings old) (e_openings new),
       e_count = override (e_count old) (e_count new),
       e_weight = override (e_weight old) (e_weight new),
       e_opening_types = override (e_opening_types old) (e_opening_types new),
       e_is_repair = override (e_is_repair old) (e_is_repair new) \<rparr>"

definition set_adj :: "graph \<Rightarrow> string \<Rightarrow> string \<Rightarrow> edge_data \<Rightarrow> graph" where
  "set_adj g u v d =
     (case map_of g u of
        None \<Rightarrow> g
      | Some (attrs, nbrs) \<Rightarrow> AList.update u (attrs, AList.update v d nbrs) g)"

text \<open>
  \<open>add_edge\<close> adds the end nodes that are missing, updates the attributes of the edge
  (those of an existing edge are kept where the call gives none) and stores them at
  both ends.
\<close>

definition add_edge :: "graph \<Rightarrow> string \<Rightarrow> string \<Rightarrow> edge_data \<Rightarrow> graph" where
  "add_edge g u v attrs =
     (let g1 = (if has_node g u then g else g @ [(u, [], [])]);
          g2 = (if has_node g1 v then g1 else g1 @ [(v, [], [])]);
          datadict = edge_update (get_default no_attributes (get_edge_data g2 u v)) attrs
      in set_adj (set_adj g2 u v datadict) v u datadict)"

text \<open>\<open>G.edges()\<close>: every edge once, reported from the end that comes first.\<close>

fun edges_from :: "graph \<Rightarrow> string list \<Rightarrow> (string \<times> string) list" where
  "edges_from [] seen = []"
| "edges_from ((n, attrs, nbrs) # rest) seen =
     map (\<lambda>nbr. (n, nbr)) (filter (\<lambda>nbr. nbr \<notin> set seen) (map fst nbrs))
       @ edges_from rest (n # seen)"

definition edges :: "graph \<Rightarrow> (string \<times> string) list" where
  "edges g = edges_from g []"

text \<open>
  The breadth-first search of NetworkX's connectivity functions: \<open>seen\<close> grows by the
  unseen neighbours of the current level until a level is empty.
\<close>

definition universe :: "graph \<Rightarrow> string set" where
  "universe g = set (nodes g) \<union> (\<Union>n \<in> set (nodes g). set (neighbors g n))"

definition next_level :: "graph \<Rightarrow> string list \<Rightarrow> string list \<Rightarrow> string list" where
  "next_level g seen level =
     remdups (filter (\<lambda>w. w \<notin> set seen) (concat (map (neighbors g) level)))"

lemma finite_universe: "finite (universe g)"
  by (simp add: universe_def)

lemma neighbors_universe: "w \<in> set (neighbors g v) \<Longrightarrow> w \<in> universe g"
proof -
  assume w: "w \<in> set (neighbors g v)"
  then have "map_of g v \<noteq> None"
    by (cases "map_of g v") (auto simp: neighbors_def adj_def)
  then have "v \<in> set (nodes g)"
    by (simp add: nodes_def map_of_eq_None_iff)
  with w show ?thesis by (auto simp: universe_def)
qed

lemma next_level_universe: "set (next_level g seen level) \<subseteq> universe g - set seen"
  by (auto simp: next_level_def dest: neighbors_universe)

function plain_bfs :: "graph \<Rightarrow> string list \<Rightarrow> string list \<Rightarrow> string list" where
  "plain_bfs g seen level =
     (if level = [] then seen
      else plain_bfs g (seen @ next_level g seen level) (next_level g seen level))"
  by pat_completeness auto
termination
proof (relation "inv_image (less_than <*lex*> less_than)
    (\<lambda>(g, seen, level). (card (universe g - set seen), length level))")
  show "wf (inv_image (less_than <*lex*> less_than)
    (\<lambda>(g, seen, level). (card (universe g - set seen), length level)))"
    by (intro wf_inv_image wf_lex_prod wf_less_than)
next
  fix g :: graph and seen level :: "string list"
  assume level: "level \<noteq> []"
  let ?new = "next_level g seen level"
  show "((g, seen @ ?new, ?new), g, seen, level)
      \<in> inv_image (less_than <*lex*> less_than)
          (\<lambda>(g, seen, level). (card (universe g - set seen), length level))"
  proof (cases "?new = []")
    case True
    with level show ?thesis by simp
  next
    case False
    then obtain w where w: "w \<in> set ?new" by (cases ?new) auto
    with next_level_universe [of g seen level] have "w \<in> universe g - set seen" by auto
    moreover have "universe g - set (seen @ ?new) \<subseteq> universe g - set seen" by auto
    moreover have "w \<notin> universe g - set (seen @ ?new)" using w by simp
    ultimately have "universe g - set (seen @ ?new) \<subset> universe g - set seen" by blast
    then have "card (universe g - set (seen @ ?new)) < card (universe g - set seen)"
      by (intro psubset_card_mono) (simp_all add: finite_universe)
    then show ?thesis by simp
  qed
qed

definition node_component :: "graph \<Rightarrow> string \<Rightarrow> string list" where
  "node_component g n = plain_bfs g [n] [n]"

text \<open>\<open>nx.has_path\<close> raises NodeNotFound when an end is not a node of the graph.\<close>

definition has_path :: "graph \<Rightarrow> string \<Rightarrow> string \<Rightarrow> py_error + bool" where
  "has_path g source target =
     (if \<not> has_node g source \<or> \<not> has_node g target then Inl NodeNotFound
      else Inr (target \<in> set (node_component g source)))"

text \<open>\<open>nx.connected_components\<close>: the component of every node not seen before.\<close>

fun components_from :: "graph \<Rightarrow> string list \<Rightarrow> string list \<Rightarrow> string list list" where
  "components_from g [] seen = []"
| "components_from g (n # ns) seen =
     (if n \<in> set seen then components_from g ns seen
      else node_component g n # components_from g ns (seen @ node_component g n))"

definition connected_components :: "graph \<Rightarrow> string list list" where
  "connected_components g = components_from g (nodes g) []"

text \<open>
  \<open>nx.all_simple_paths\<close> with a cutoff and one target: a depth-first search that
  follows the adjacency order, skips the nodes already on the path, reports the path when
  it reaches the target and does not go on from there, and stops descending when the
  path has \<open>cutoff\<close> nodes. \<open>fuel\<close> is the cutoff minus the number of nodes on the path.
\<close>

fun simple_paths :: "graph \<Rightarrow> string \<Rightarrow> nat \<Rightarrow> string list \<Rightarrow> string \<Rightarrow> string list list" where
  "simple_paths g target 0 visited node =
     (if target \<in> set (neighbors g node) \<and> target \<notin> set visited
      then [visited @ [target]] else [])"
| "simple_paths g target (Suc fuel) visited node =
     concat (map (\<lambda>child.
                    if child \<in> set visited then []
                    else if child = target then [visited @ [child]]
                    else simple_paths g target fuel (visited @ [child]) child)
               (neighbors g node))"

definition all_simple_paths :: "graph \<Rightarrow> string \<Rightarrow> string \<Rightarrow> nat \<Rightarrow> string list list" where
  "all_simple_paths g source target cutoff =
     (if source = target \<or> cutoff < 1 then []
      else simple_paths g target (cutoff - 1) [source] source)"

text \<open>The adjacency relation of a graph, and the simple paths between two nodes.\<close>

definition adjacent :: "graph \<Rightarrow> (string \<times> string) set" where
  "adjacent g = {(u, v). v \<in> set (neighbors g u)}"



section \<open>The ACH calculator (ventilation/ach\_calculator.py)\<close>

record ach_config =
  high_ach :: real
  medium_ach_range :: "real \<times> real"
  low_ach_range :: "real \<times> real"
  opening_influence :: real
  path_decay :: real

definition default_config :: ach_config where
  "default_config =
     \<lparr> high_ach = 10, medium_ach_range = (5, 8), low_ach_range = (1, 4),
       opening_influence = 0.7, path_decay = 0.6 \<rparr>"

text \<open>
  The attributes of the edge between two consecutive nodes of a path. The edge exists,
  since the path comes from the search of the graph.
\<close>

definition edge_attrs :: "graph \<Rightarrow> string \<times> string \<Rightarrow> edge_data" where
  "edge_attrs g e = (case e of (u, v) \<Rightarrow> get_default no_attributes (get_edge_data g u v))"

definition edge_weight :: "edge_data \<Rightarrow> real" where
  "edge_weight edge = get_default 1 (e_weight edge)"

definition opening_type_of :: "edge_data \<Rightarrow> string" where
  "opening_type_of edge =
     (case filter (\<lambda>t. t \<noteq> ''repair'') (get_default [] (e_opening_types edge)) of
        [] \<Rightarrow> ''unknown''
      | t # _ \<Rightarrow> t)"

text \<open>The area of an opening is estimated from the weight of its edge.\<close>

definition estimated_area :: "real \<Rightarrow> real" where
  "estimated_area w = (if w > 0 then 1 / w else 1)"

definition edge_openings_info :: "edge_data \<Rightarrow> opening_info list" where
  "edge_openings_info edge =
     map (\<lambda>opening_id.
            \<lparr> oi_id = opening_id, oi_type = opening_type_of edge,
              oi_estimated_area = estimated_area (edge_weight edge) \<rparr>)
       (get_default [] (e_openings edge))"

definition path_edges :: "string list \<Rightarrow> (string \<times> string) list" where
  "path_edges path = zip path (tl path)"

definition make_path :: "ach_config \<Rightarrow> graph \<Rightarrow> string \<Rightarrow> string list \<Rightarrow> vent_path" where
  "make_path config g ext_id path =
     (let path_edge_data = map (edge_attrs g) (path_edges path);
          openings_info = concat (map edge_openings_info path_edge_data);
          path_weight = sum_list (map edge_weight path_edge_data);
          total_opening_area = sum_list (map oi_estimated_area openings_info);
          path_length = length path - 1;
          decay_factor = path_decay config ^ (path_length - 1)
      in \<lparr> p_route = path,
           p_via = map oi_id openings_info,
           p_openings = openings_info,
           p_weight = path_weight,
           p_length = path_length,
           p_decay_factor = decay_factor,
           p_total_opening_area = total_opening_area,
           p_exterior = ext_id \<rparr>)"

text \<open>The loop over the exterior nodes: at most five paths of at most six hops to each.\<close>

fun paths_to_exteriors ::
  "ach_config \<Rightarrow> graph \<Rightarrow> string \<Rightarrow> string list \<Rightarrow> py_error + vent_path list" where
  "paths_to_exteriors config g space_id [] = Inr []"
| "paths_to_exteriors config g space_id (ext_id # rest) =
     (case has_path g space_id ext_id of
        Inl e \<Rightarrow> Inl e
      | Inr reachable \<Rightarrow>
          (case paths_to_exteriors config g space_id rest of
             Inl e \<Rightarrow> Inl e
           | Inr others \<Rightarrow>
               Inr ((if reachable
                     then map (make_path config g ext_id)
                            (take 5 (all_simple_paths g space_id ext_id 6))
                     else []) @ others)))"

text \<open>The list is sorted by weight at the end; Python's sort is stable.\<close>

definition find_ventilation_paths ::
  "ach_config \<Rightarrow> string \<Rightarrow> graph \<Rightarrow> string list \<Rightarrow> py_error + vent_path list" where
  "find_ventilation_paths config space_id g exterior_nodes =
     (case paths_to_exteriors config g space_id exterior_nodes of
        Inl e \<Rightarrow> Inl e
      | Inr found \<Rightarrow> Inr (sort_key p_weight found))"

definition mean2 :: "real \<times> real \<Rightarrow> real" where
  "mean2 r = (fst r + snd r) / 2"

definition base_ach :: "ach_config \<Rightarrow> nat \<Rightarrow> real" where
  "base_ach config path_length =
     (if path_length = 1 then high_ach config
      else if path_length = 2 then mean2 (medium_ach_range config)
      else mean2 (low_ach_range config))"

text \<open>
  Python's \<open>x ** y\<close> on a base that is never negative here (a sum of estimated areas):
  \<open>0 ** 0\<close> is 1, \<open>0\<close> to a negative power raises ZeroDivisionError.
\<close>

definition py_pow :: "real \<Rightarrow> real \<Rightarrow> py_error + real" where
  "py_pow x y =
     (if x = 0 then (if y = 0 then Inr 1 else if y < 0 then Inl ZeroDivisionError else Inr 0)
      else Inr (x powr y))"

definition path_contribution :: "ach_config \<Rightarrow> vent_path \<Rightarrow> py_error + real" where
  "path_contribution config path =
     (case py_pow (p_total_opening_area path) (opening_influence config) of
        Inl e \<Rightarrow> Inl e
      | Inr opening_area_factor \<Rightarrow>
          Inr (base_ach config (p_length path) * opening_area_factor * p_decay_factor path))"

text \<open>
  \<open>_calculate_space_ach\<close>. The division of the weights by their sum is NumPy's and does
  not raise; the sum is positive whenever the edge weights are not negative.
\<close>

definition calculate_space_ach :: "ach_config \<Rightarrow> space \<Rightarrow> vent_path list \<Rightarrow> py_error + real" where
  "calculate_space_ach config space paths =
     (if paths = [] then Inr (fst (low_ach_range config))
      else
        (case sequence_err (map (path_contribution config) paths) of
           Inl e \<Rightarrow> Inl e
         | Inr path_contributions \<Rightarrow>
             (case sequence_err (map (\<lambda>path. py_inverse (p_weight path + 0.1)) paths) of
                Inl e \<Rightarrow> Inl e
              | Inr weights \<Rightarrow>
                  (let total = sum_list weights;
                       normalized = map (\<lambda>w. w / total) weights;
                       ach_rate = sum_list (map (\<lambda>(c, w). c * w)
                                              (zip path_contributions normalized));
                       min_ach = fst (low_ach_range config);
                       max_ach = high_ach config
                   in Inr (max min_ach (min ach_rate max_ach))))))"

definition rate_of :: "(string \<times> real) list \<Rightarrow> string \<Rightarrow> real" where
  "rate_of rates space_id = get_default 0 (map_of rates space_id)"

text \<open>One step of \<open>_validate_ach_rates\<close>: the smoothing of the two ends of an edge.\<close>

definition smooth_pair :: "(string \<times> real) list \<Rightarrow> string \<times> string \<Rightarrow> (string \<times> real) list" where
  "smooth_pair rates e =
     (case e of (space1_id, space2_id) \<Rightarrow>
        if startswith space1_id ''space_exterior'' \<or> startswith space2_id ''space_exterior''
        then rates
        else
          (let ach1 = rate_of rates space1_id;
               ach2 = rate_of rates space2_id
           in if \<bar>ach1 - ach2\<bar> > 5 then
                (let average = (ach1 + ach2) / 2;
                     adjustment = 0.3
                 in if ach1 > ach2
                    then AList.update space2_id (ach2 + (average - ach2) * adjustment)
                           (AList.update space1_id (ach1 - (ach1 - average) * adjustment) rates)
                    else AList.update space2_id (ach2 - (ach2 - average) * adjustment)
                           (AList.update space1_id (ach1 + (average - ach1) * adjustment) rates))
              else rates))"

definition validate_ach_rates :: "graph \<Rightarrow> (string \<times> real) list \<Rightarrow> (string \<times> real) list" where
  "validate_ach_rates g rates = fold (\<lambda>e r. smooth_pair r e) (edges g) rates"

text \<open>The loop of \<open>calculate_ach_rates\<close> over the spaces, on the calculator's state.\<close>

fun rate_spaces ::
  "ach_config \<Rightarrow> graph \<Rightarrow> string list \<Rightarrow> space list \<Rightarrow> calculator \<Rightarrow> py_error + calculator" where
  "rate_spaces config g exterior_nodes [] self = Inr self"
| "rate_spaces config g exterior_nodes (space # rest) self =
     (case find_ventilation_paths config (s_id space) g exterior_nodes of
        Inl e \<Rightarrow> Inl e
      | Inr paths_to_exterior \<Rightarrow>
          (case calculate_space_ach config space paths_to_exterior of
             Inl e \<Rightarrow> Inl e
           | Inr ach_rate \<Rightarrow>
               rate_spaces config g exterior_nodes rest
                 \<lparr> ach_rates = AList.update (s_id space) ach_rate (ach_rates self),
                   ventilation_paths =
                     AList.update (s_id space) paths_to_exterior (ventilation_paths self) \<rparr>))"

definition calculate_ach_rates ::
  "ach_config \<Rightarrow> space list \<Rightarrow> graph \<Rightarrow> string list \<Rightarrow> py_error + calculator" where
  "calculate_ach_rates config spaces g exterior_nodes =
     (case rate_spaces config g exterior_nodes spaces \<lparr> ach_rates = [], ventilation_paths = [] \<rparr> of
        Inl e \<Rightarrow> Inl e
      | Inr self \<Rightarrow> Inr (self\<lparr> ach_rates := validate_ach_rates g (ach_rates self) \<rparr>))"

text \<open>Predicates on rates and weights, used to state the results.\<close>

definition rates_within :: "real \<Rightarrow> real \<Rightarrow> (string \<times> real) list \<Rightarrow> bool" where
  "rates_within lo hi rates = (\<forall>k a. map_of rates k = Some a \<longrightarrow> lo \<le> a \<and> a \<le> hi)"

definition rates_near :: "real \<Rightarrow> real \<Rightarrow> string set \<Rightarrow> (string \<times> real) list \<Rightarrow> bool" where
  "rates_near lo hi S rates =
     (S \<subseteq> fst ` set rates \<and>
      (\<forall>k a. map_of rates k = Some a \<longrightarrow>
         min lo 0 \<le> a \<and> a \<le> max hi 0 \<and> (k \<in> S \<longrightarrow> lo \<le> a \<and> a \<le> hi)))"

definition weights_nonneg :: "graph \<Rightarrow> bool" where
  "weights_nonneg g =
     (\<forall>(n, attrs, nbrs) \<in> set g. \<forall>(nbr, d) \<in> set nbrs. 0 \<le> edge_weight d)"

section \<open>The topology builder (ventilation/topology\_builder.py)\<close>

record builder =
  space_graph :: graph
  exterior_nodes :: "string list"
  space_properties :: "(string \<times> space) list"

record topology =
  t_space_graph :: graph
  t_exterior_nodes :: "string list"
  t_isolated_spaces :: "string list"

definition exterior_id :: string where
  "exterior_id = ''space_exterior''"

definition space_attrs :: "space \<Rightarrow> (string \<times> attr) list" where
  "space_attrs space =
     [(''type'', AStr ''space''),
      (''volume'', ANum (get_default 0 (s_volume space))),
      (''center'', AVec (get_default [0, 0, 0] (s_center space))),
      (''dimensions'', AVec (get_default [0, 0, 0] (s_dimensions space))),
      (''space_type'', AStr (get_default ''unknown'' (s_type space)))]"

definition exterior_attrs :: "(string \<times> attr) list" where
  "exterior_attrs =
     [(''type'', AStr ''exterior''), (''volume'', AInf), (''center'', AVec [0, 0, 0]),
      (''dimensions'', AVec [0, 0, 0]), (''space_type'', AStr ''exterior'')]"

definition add_space :: "builder \<Rightarrow> space \<Rightarrow> builder" where
  "add_space self space =
     self\<lparr> space_graph := add_node (space_graph self) (s_id space) (space_attrs space),
           space_properties := AList.update (s_id space) space (space_properties self) \<rparr>"

definition opening_weight :: "opening_dict \<Rightarrow> real" where
  "opening_weight opening =
     (case o_area opening of
        None \<Rightarrow> 1
      | Some area \<Rightarrow> if area > 0 then 1 / area else 10)"

text \<open>
  One opening of the loop that adds the edges. An opening with one endpoint leads to the
  exterior; one that does not have two endpoints then, or whose endpoints are not nodes,
  is skipped. \<open>opening["type"]\<close> raises KeyError when the key is missing.
\<close>

definition connect_opening :: "graph \<Rightarrow> opening_dict \<Rightarrow> py_error + graph" where
  "connect_opening g opening =
     (let listed = get_default [] (o_connects opening);
          connected_spaces = (if length listed = 1 then listed @ [exterior_id] else listed)
      in case connected_spaces of
           [space1_id, space2_id] \<Rightarrow>
             if \<not> (has_node g space1_id \<and> has_node g space2_id) then Inr g
             else
               (let weight = opening_weight opening
                in case get_edge_data g space1_id space2_id of
                     Some edge \<Rightarrow>
                       (let openings_list = get_default [] (e_openings edge) @ [o_id opening];
                            current_weight = get_default 1 (e_weight edge);
                            new_weight = min current_weight weight
                        in case o_type opening of
                             None \<Rightarrow> Inl KeyError
                           | Some opening_type \<Rightarrow>
                               (let updated =
                                      edge_update edge
                                        \<lparr> e_openings = Some openings_list,
                                          e_count = Some (length openings_list),
                                          e_weight = Some new_weight,
                                          e_opening_types =
                                            Some (get_default [] (e_opening_types edge)
                                                    @ [opening_type]),
                                          e_is_repair = None \<rparr>
                                in Inr (set_adj (set_adj g space1_id space2_id updated)
                                          space2_id space1_id updated)))
                   | None \<Rightarrow>
                       (case o_type opening of
                          None \<Rightarrow> Inl KeyError
                        | Some opening_type \<Rightarrow>
                            Inr (add_edge g space1_id space2_id
                                   \<lparr> e_openings = Some [o_id opening], e_count = Some 1,
                                     e_weight = Some weight,
                                     e_opening_types = Some [opening_type],
                                     e_is_repair = None \<rparr>)))
         | _ \<Rightarrow> Inr g)"

fun connect_openings :: "graph \<Rightarrow> opening_dict list \<Rightarrow> py_error + graph" where
  "connect_openings g [] = Inr g"
| "connect_openings g (opening # rest) =
     (case connect_opening g opening of
        Inl e \<Rightarrow> Inl e
      | Inr g1 \<Rightarrow> connect_openings g1 rest)"

text \<open>
  \<open>_calculate_topology_properties\<close>. The betweenness and the closeness centrality are
  NetworkX's; the dictionaries they return are the parameters \<open>betweenness\<close> and
  \<open>closeness\<close>. Each score is divided by the maximum over the graph: a maximum of zero
  raises ZeroDivisionError.
\<close>

definition degree :: "graph \<Rightarrow> string \<Rightarrow> nat" where
  "degree g n = length (adj g n) + (if n \<in> set (neighbors g n) then 1 else 0)"

definition max_default :: "real list \<Rightarrow> real" where
  "max_default values = (case values of [] \<Rightarrow> 1 | v # vs \<Rightarrow> fold max vs v)"

definition centrality_attrs ::
  "(string \<times> real) list \<Rightarrow> (string \<times> real) list \<Rightarrow> graph \<Rightarrow> string \<Rightarrow> (string \<times> attr) list" where
  "centrality_attrs b c g n =
     [(''betweenness'', ANum (get_default 0 (map_of b n))),
      (''closeness'', ANum (get_default 0 (map_of c n))),
      (''degree'', ANat (degree g n)),
      (''centrality_score'',
         ANum (0.4 * get_default 0 (map_of b n) / max_default (map snd b)
               + 0.4 * get_default 0 (map_of c n) / max_default (map snd c)
               + 0.2 * real (degree g n) / max_default (map (\<lambda>m. real (degree g m)) (nodes g))))]"

definition calculate_topology_properties ::
  "(graph \<Rightarrow> (string \<times> real) list) \<Rightarrow> (graph \<Rightarrow> (string \<times> real) list) \<Rightarrow> graph
     \<Rightarrow> py_error + graph" where
  "calculate_topology_properties betweenness closeness g =
     (let b = betweenness g; c = closeness g
      in if g = [] then Inr g
         else if max_default (map snd b) = 0 \<or> max_default (map snd c) = 0 \<or>
                 max_default (map (\<lambda>m. real (degree g m)) (nodes g)) = 0
         then Inl ZeroDivisionError
         else Inr (map (\<lambda>(n, attrs, nbrs).
                          (n, dict_update attrs (centrality_attrs b c g n), nbrs)) g))"

text \<open>
  The largest space of a component. A component is a Python set: the order in which the
  loop meets its nodes is not specified; the parameter \<open>iter_order\<close> stands for it.
\<close>

fun largest_space_from ::
  "(string \<times> space) list \<Rightarrow> string list \<Rightarrow> string option \<times> real \<Rightarrow> string option \<times> real" where
  "largest_space_from properties [] best = best"
| "largest_space_from properties (node # rest) (largest_space, max_volume) =
     (case map_of properties node of
        None \<Rightarrow> largest_space_from properties rest (largest_space, max_volume)
      | Some space \<Rightarrow>
          (let volume = get_default 0 (s_volume space)
           in if volume > max_volume
              then largest_space_from properties rest (Some node, volume)
              else largest_space_from properties rest (largest_space, max_volume)))"

text \<open>Python's truth value of a string or None: the empty string is false.\<close>

definition truthy :: "string option \<Rightarrow> bool" where
  "truthy s = (case s of None \<Rightarrow> False | Some v \<Rightarrow> v \<noteq> [])"

definition repair_edge :: edge_data where
  "repair_edge =
     \<lparr> e_openings = Some [''repair_opening''], e_count = Some 1, e_weight = Some 2,
       e_opening_types = Some [''repair''], e_is_repair = Some True \<rparr>"

definition repair_component ::
  "(string list \<Rightarrow> string list) \<Rightarrow> builder \<Rightarrow> string list \<Rightarrow> graph \<Rightarrow> string list \<Rightarrow> graph" where
  "repair_component iter_order self exterior_component g component =
     (if set component \<noteq> set exterior_component then
        (let largest_space =
               fst (largest_space_from (space_properties self) (iter_order component) (None, 0))
         in if truthy largest_space then
              (let ext = (case exterior_nodes self of [] \<Rightarrow> None | e # _ \<Rightarrow> Some e)
               in if truthy ext then add_edge g (the largest_space) (the ext) repair_edge
                  else g)
            else g)
      else g)"

definition validate_topology :: "(string list \<Rightarrow> string list) \<Rightarrow> builder \<Rightarrow> builder" where
  "validate_topology iter_order self =
     (let components = connected_components (space_graph self)
      in if length components > 1 then
           (case find (\<lambda>component. \<exists>node \<in> set component. node \<in> set (exterior_nodes self))
                   components of
              None \<Rightarrow> self
            | Some exterior_component \<Rightarrow>
                self\<lparr> space_graph :=
                        fold (\<lambda>component g.
                                repair_component iter_order self exterior_component g component)
                          components (space_graph self) \<rparr>)
         else self)"

text \<open>
  \<open>_find_isolated_spaces\<close>: the nodes that are not exterior nodes and have no path to
  any exterior node.
\<close>

fun can_reach_exterior :: "graph \<Rightarrow> string \<Rightarrow> string list \<Rightarrow> py_error + bool" where
  "can_reach_exterior g node [] = Inr False"
| "can_reach_exterior g node (ext # rest) =
     (case has_path g node ext of
        Inl e \<Rightarrow> Inl e
      | Inr reachable \<Rightarrow> if reachable then Inr True else can_reach_exterior g node rest)"

fun isolated_among :: "builder \<Rightarrow> string list \<Rightarrow> py_error + string list" where
  "isolated_among self [] = Inr []"
| "isolated_among self (node # rest) =
     (if node \<in> set (exterior_nodes self) then isolated_among self rest
      else
        (case can_reach_exterior (space_graph self) node (exterior_nodes self) of
           Inl e \<Rightarrow> Inl e
         | Inr reachable \<Rightarrow>
             (case isolated_among self rest of
                Inl e \<Rightarrow> Inl e
              | Inr isolated_spaces \<Rightarrow>
                  Inr (if reachable then isolated_spaces else node # isolated_spaces))))"

definition find_isolated_spaces :: "builder \<Rightarrow> py_error + string list" where
  "find_isolated_spaces self = isolated_among self (nodes (space_graph self))"

text \<open>
  \<open>build_topology\<close>, on the builder's state: the graph is created anew, the exterior
  nodes and the space properties are kept from earlier calls.
\<close>

definition build_topology ::
  "(graph \<Rightarrow> (string \<times> real) list) \<Rightarrow> (graph \<Rightarrow> (string \<times> real) list)
     \<Rightarrow> (string list \<Rightarrow> string list) \<Rightarrow> builder \<Rightarrow> space list \<Rightarrow> opening_dict list
     \<Rightarrow> py_error + topology \<times> builder" where
  "build_topology betweenness closeness iter_order self spaces openings =
     (let self1 = fold (\<lambda>space b. add_space b space) spaces (self\<lparr> space_graph := [] \<rparr>);
          self2 = self1\<lparr> space_graph := add_node (space_graph self1) exterior_id exterior_attrs,
                         exterior_nodes := List.insert exterior_id (exterior_nodes self1) \<rparr>
      in case connect_openings (space_graph self2) openings of
           Inl e \<Rightarrow> Inl e
         | Inr g \<Rightarrow>
             (case calculate_topology_properties betweenness closeness g of
                Inl e \<Rightarrow> Inl e
              | Inr g1 \<Rightarrow>
                  (let self3 = validate_topology iter_order (self2\<lparr> space_graph := g1 \<rparr>)
                   in case find_isolated_spaces self3 of
                        Inl e \<Rightarrow> Inl e
                      | Inr isolated_spaces \<Rightarrow>
                          Inr (\<lparr> t_space_graph = space_graph self3,
                                  t_exterior_nodes = exterior_nodes self3,
                                  t_isolated_spaces = isolated_spaces \<rparr>,
                               self3))))"

text \<open>
  Predicates used to state the results: a graph whose adjacency is symmetric and stays
  within its nodes, and a component in which the repair pass finds a space to connect.
\<close>

definition well_formed :: "graph \<Rightarrow> bool" where
  "well_formed g = (sym (adjacent g) \<and> (\<forall>(u, v) \<in> adjacent g. has_node g v))"

definition repairable :: "(string list \<Rightarrow> string list) \<Rightarrow> builder \<Rightarrow> string list \<Rightarrow> bool" where
  "repairable iter_order self component =
     (\<exists>l \<in> set component. l \<noteq> [] \<and>
        fst (largest_space_from (space_properties self) (iter_order component) (None, 0)) = Some l)"

section \<open>Example inputs\<close>

definition example_space :: space where
  "example_space =
     \<lparr> s_id = ''space_000'', s_volume = Some 100, s_center = None, s_dimensions = None,
       s_type = None, s_bbox_min = None, s_bbox_max = None \<rparr>"

definition example_window :: opening_dict where
  "example_window =
     \<lparr> o_id = ''opening_000'', o_type = Some ''standard_door'',
       o_connects = Some [''space_000'', ''space_exterior''], o_position = None,
       o_area = Some 1, o_state = None \<rparr>"

definition example_path :: "string \<Rightarrow> string list \<Rightarrow> vent_path" where
  "example_path space_id via =
     \<lparr> p_route = [space_id, ''space_exterior''], p_via = via, p_openings = [],
       p_weight = 1, p_length = 1, p_decay_factor = 1, p_total_opening_area = 1,
       p_exterior = ''space_exterior'' \<rparr>"

definition example_calculator :: calculator where
  "example_calculator =
     \<lparr> ach_rates = [(''space_000'', 10), (''space_001'', 4)],
       ventilation_paths =
         [(''space_000'', [example_path ''space_000'' [''opening_000'']]),
          (''space_001'', [example_path ''space_001'' [''opening_001'']])] \<rparr>"

definition example_occupancy :: grid where
  "example_occupancy = (\<lambda>v. v \<noteq> (2, 1, 1) \<and> v \<noteq> (0, 0, 0))"

definition example_voxel_data :: voxel_data where
  "example_voxel_data =
     \<lparr> vd_shape = (5, 3, 3), vd_voxel_grid = Some example_occupancy,
       vd_base_voxel_size = 2, vd_origin = (0, 0, 0) \<rparr>"

definition example_detector_config :: detector_config where
  "example_detector_config = \<lparr> min_space_volume = 5, max_seed_points = 5000 \<rparr>"

text \<open>A labelling for grids with at most one component: every set voxel gets label 1.\<close>

definition single_label :: "shape \<Rightarrow> grid \<Rightarrow> (voxel \<Rightarrow> nat) \<times> nat" where
  "single_label shape grid = ((\<lambda>v. if grid v then 1 else 0), 1)"

text \<open>Two outcomes of the random shuffle: the seeds as they are, and reversed.\<close>

definition keep_order :: "voxel list \<Rightarrow> voxel list" where
  "keep_order seeds = seeds"




text \<open>
  The graph that \<open>build_topology\<close> holds after its loop over the openings, before the
  centrality and repair steps, for a new builder.
\<close>

definition room :: "string \<Rightarrow> space" where
  "room i =
     \<lparr> s_id = i, s_volume = Some 100, s_center = None, s_dimensions = None, s_type = None,
       s_bbox_min = None, s_bbox_max = None \<rparr>"

definition door :: "string \<Rightarrow> string list \<Rightarrow> real \<Rightarrow> opening_dict" where
  "door i connects area =
     \<lparr> o_id = i, o_type = Some ''standard_door'', o_connects = Some connects,
       o_position = None, o_area = Some area, o_state = None \<rparr>"

definition new_builder :: builder where
  "new_builder = \<lparr> space_graph = [], exterior_nodes = [], space_properties = [] \<rparr>"

definition example_graph :: "space list \<Rightarrow> opening_dict list \<Rightarrow> graph" where
  "example_graph spaces openings =
     (case connect_openings
             (add_node (space_graph (fold (\<lambda>space b. add_space b space) spaces new_builder))
                exterior_id exterior_attrs)
             openings of
        Inl e \<Rightarrow> []
      | Inr g \<Rightarrow> g)"

text \<open>
  A space with five neighbours, each with an opening to the exterior, and one window of
  its own (2 square metres), which the opening detector lists last.
\<close>

definition star_spaces :: "space list" where
  "star_spaces =
     [room ''space_000'', room ''space_001'', room ''space_002'', room ''space_003'',
      room ''space_004'', room ''space_005'']"

definition star_openings :: "opening_dict list" where
  "star_openings =
     [door ''opening_000'' [''space_000'', ''space_001''] 1,
      door ''opening_001'' [''space_000'', ''space_002''] 1,
      door ''opening_002'' [''space_000'', ''space_003''] 1,
      door ''opening_003'' [''space_000'', ''space_004''] 1,
      door ''opening_004'' [''space_000'', ''space_005''] 1,
      door ''opening_005'' [''space_001''] 1,
      door ''opening_006'' [''space_002''] 1,
      door ''opening_007'' [''space_003''] 1,
      door ''opening_008'' [''space_004''] 1,
      door ''opening_009'' [''space_005''] 1,
      door ''opening_010'' [''space_000''] 2]"

definition star :: graph where
  "star = example_graph star_spaces star_openings"



text \<open>
  The chain space\_000 -- space\_001 -- exterior with a third space that no opening
  touches, and the betweenness and closeness centrality of NetworkX on that graph (the
  third space is the parameter). In the first list the third space has the empty
  string as its identifier.
\<close>

definition listed_order :: "string list \<Rightarrow> string list" where
  "listed_order component = component"

definition chain_openings :: "opening_dict list" where
  "chain_openings =
     [door ''opening_000'' [''space_000'', ''space_001''] 1,
      door ''opening_001'' [''space_001''] 1]"

definition chain_betweenness :: "string \<Rightarrow> graph \<Rightarrow> (string \<times> real) list" where
  "chain_betweenness third g =
     [(''space_000'', 0), (''space_001'', 1 / 3), (third, 0), (''space_exterior'', 0)]"

definition chain_closeness :: "string \<Rightarrow> graph \<Rightarrow> (string \<times> real) list" where
  "chain_closeness third g =
     [(''space_000'', 4 / 9), (''space_001'', 2 / 3), (third, 0), (''space_exterior'', 4 / 9)]"

definition unnamed_spaces :: "space list" where
  "unnamed_spaces = [room ''space_000'', room ''space_001'', room []]"

definition sealed_spaces :: "space list" where
  "sealed_spaces = [room ''space_000'', room ''space_001'', room ''space_002'']"

section \<open>Results on the opening features\<close>

text \<open>
  C10. With fewer than three vertices \<open>compute_opening_features\<close> does not raise and
  returns a dictionary in which area, perimeter, width, height, aspect\_ratio and
  circularity are all 0.0, whatever the hull branch would do.
\<close>

theorem compute_opening_features_degenerate:
  assumes "length vertices < 3"
  shows "\<exists>d. compute_opening_features hull_features vertices = Inr d \<and>
           map_of d ''area'' = Some (Num 0) \<and> map_of d ''perimeter'' = Some (Num 0) \<and>
           map_of d ''width'' = Some (Num 0) \<and> map_of d ''height'' = Some (Num 0) \<and>
           map_of d ''aspect_ratio'' = Some (Num 0) \<and>
           map_of d ''circularity'' = Some (Num 0)"
  using assms by (simp add: compute_opening_features_def)

theorem compute_opening_features_degenerate_witness:
  "length [(0, 0, 0), (1, 0, 0 :: real)] < 3 \<and>
   (\<exists>d. compute_opening_features (\<lambda>vs. Inl TypeError) [(0, 0, 0), (1, 0, 0)] = Inr d \<and>
      map_of d ''area'' = Some (Num 0) \<and> map_of d ''perimeter'' = Some (Num 0) \<and>
      map_of d ''width'' = Some (Num 0) \<and> map_of d ''height'' = Some (Num 0) \<and>
      map_of d ''aspect_ratio'' = Some (Num 0) \<and>
      map_of d ''circularity'' = Some (Num 0))"
proof -
  have short: "length [(0, 0, 0), (1, 0, 0 :: real)] < 3" by simp
  show ?thesis
    using short
      compute_opening_features_degenerate [OF short, of "\<lambda>vs. Inl TypeError"]
    by blast
qed


section \<open>Results on the validation\<close>

lemma check_spaces_ids:
  "check_spaces ss (e, w, ids) = (e', w', ids') \<Longrightarrow>
     ids' = ids \<union> set (List.map_filter os_id ss)"
proof (induction ss arbitrary: e w ids)
  case Nil
  then show ?case by (simp add: map_filter_simps)
next
  case (Cons s ss)
  show ?case
  proof (cases "os_id s")
    case None
    with Cons show ?thesis by (simp add: map_filter_simps)
  next
    case (Some i)
    obtain e1 w1 where
      "check_spaces (s # ss) (e, w, ids) = check_spaces ss (e1, w1, insert i ids)"
      using Some by (simp add: Let_def)
    with Cons.prems have "check_spaces ss (e1, w1, insert i ids) = (e', w', ids')"
      by simp
    from Cons.IH [OF this] Some show ?thesis
      by (auto simp: map_filter_simps)
  qed
qed

lemma check_spaces_errors:
  "check_spaces ss (e, w, ids) = (e', w', ids') \<Longrightarrow>
     (e' = [] \<longleftrightarrow>
        e = [] \<and> (\<forall>s \<in> set ss. os_id s \<noteq> None) \<and>
        distinct (List.map_filter os_id ss) \<and> set (List.map_filter os_id ss) \<inter> ids = {})"
proof (induction ss arbitrary: e w ids)
  case Nil
  then show ?case by (simp add: map_filter_simps)
next
  case (Cons s ss)
  show ?case
  proof (cases "os_id s")
    case None
    with Cons.prems have "check_spaces ss (e @ [SpaceWithoutId], w, ids) = (e', w', ids')"
      by simp
    from Cons.IH [OF this] None show ?thesis by simp
  next
    case (Some i)
    obtain w1 where
      "check_spaces (s # ss) (e, w, ids) =
         check_spaces ss
           ((if i \<in> ids then e @ [DuplicateSpaceId i] else e), w1, insert i ids)"
      using Some by (simp add: Let_def)
    with Cons.prems have
      "check_spaces ss ((if i \<in> ids then e @ [DuplicateSpaceId i] else e), w1, insert i ids)
         = (e', w', ids')"
      by simp
    from Cons.IH [OF this] Some show ?thesis
      by (auto simp: map_filter_simps)
  qed
qed

lemma dangling_empty:
  "dangling ids c cs = [] \<longleftrightarrow>
     (\<forall>e \<in> set cs. e \<in> ids \<or> startswith e ''space_exterior'')"
  by (auto simp: dangling_def filter_empty_conv)

lemma check_connections_errors:
  "check_connections sids cs (e, ids) = (e', ids') \<Longrightarrow>
     (e' = [] \<longleftrightarrow>
        e = [] \<and> (\<forall>c \<in> set cs. oc_id c \<noteq> None) \<and>
        distinct (List.map_filter oc_id cs) \<and> set (List.map_filter oc_id cs) \<inter> ids = {} \<and>
        (\<forall>c \<in> set cs. \<forall>x \<in> set (case oc_connects c of None \<Rightarrow> [] | Some l \<Rightarrow> l).
            x \<in> sids \<or> startswith x ''space_exterior''))"
proof (induction cs arbitrary: e ids)
  case Nil
  then show ?case by (simp add: map_filter_simps)
next
  case (Cons c cs)
  show ?case
  proof (cases "oc_id c")
    case None
    with Cons.prems have
      "check_connections sids cs (e @ [ConnectionWithoutId], ids) = (e', ids')"
      by simp
    from Cons.IH [OF this] None show ?thesis by simp
  next
    case (Some i)
    with Cons.prems have
      "check_connections sids cs
         ((if i \<in> ids then e @ [DuplicateConnectionId i] else e) @
            dangling sids i (case oc_connects c of None \<Rightarrow> [] | Some l \<Rightarrow> l),
          insert i ids) = (e', ids')"
      by (simp add: Let_def)
    from Cons.IH [OF this] Some show ?thesis
      by (auto simp: map_filter_simps dangling_empty)
  qed
qed

text \<open>
  C5 as stated: a record is reported valid if and only if the space identifiers are
  unique, the opening identifiers are unique, every endpoint resolves, every volume is
  positive and every ACH lies in [0, 20]. The record below has one space of volume 0
  and ACH 25: the code only warns about both and reports the record valid.
\<close>

theorem validate_space_data_volume_counterexample:
  "\<not> (v_is_valid (validate_space_data
          \<lparr> sd_spaces = [\<lparr> os_id = Some ''space_000'', os_volume = Some 0,
                            os_ventilationRate = Some 25 \<rparr>],
            sd_connections = [] \<rparr>)
      \<longleftrightarrow>
        (distinct (space_ids_of
          \<lparr> sd_spaces = [\<lparr> os_id = Some ''space_000'', os_volume = Some 0,
                            os_ventilationRate = Some 25 \<rparr>],
            sd_connections = [] \<rparr>) \<and>
         distinct (connection_ids_of
          \<lparr> sd_spaces = [\<lparr> os_id = Some ''space_000'', os_volume = Some 0,
                            os_ventilationRate = Some 25 \<rparr>],
            sd_connections = [] \<rparr>) \<and>
         endpoints_resolve
          \<lparr> sd_spaces = [\<lparr> os_id = Some ''space_000'', os_volume = Some 0,
                            os_ventilationRate = Some 25 \<rparr>],
            sd_connections = [] \<rparr> \<and>
         volumes_positive
          \<lparr> sd_spaces = [\<lparr> os_id = Some ''space_000'', os_volume = Some 0,
                            os_ventilationRate = Some 25 \<rparr>],
            sd_connections = [] \<rparr> \<and>
         ach_in_range
          \<lparr> sd_spaces = [\<lparr> os_id = Some ''space_000'', os_volume = Some 0,
                            os_ventilationRate = Some 25 \<rparr>],
            sd_connections = [] \<rparr>))"
  by (simp add: validate_space_data_def volumes_positive_def)

text \<open>
  C5 as the code has it: a record is reported valid if and only if every space and every
  connection carries an identifier, the space identifiers are unique, the connection
  identifiers are unique, and every endpoint of a connection is the identifier of a
  space of the record or starts with \<open>space_exterior\<close>. Volumes and ACH values play no
  part in validity.
\<close>

theorem validate_space_data_valid_iff:
  "v_is_valid (validate_space_data d) \<longleftrightarrow>
     ids_present d \<and> distinct (space_ids_of d) \<and> distinct (connection_ids_of d) \<and>
     endpoints_resolve d"
proof -
  obtain e w sids where cs: "check_spaces (sd_spaces d) ([], [], {}) = (e, w, sids)"
    by (metis prod_cases3)
  obtain e1 cids where cc: "check_connections sids (sd_connections d) (e, {}) = (e1, cids)"
    by (metis surj_pair)
  have sids: "sids = set (space_ids_of d)"
    using check_spaces_ids [OF cs] by (simp add: space_ids_of_def)
  have valid: "v_is_valid (validate_space_data d) \<longleftrightarrow> e1 = []"
    by (simp add: validate_space_data_def cs cc)
  show ?thesis
    unfolding valid
    using check_spaces_errors [OF cs] check_connections_errors [OF cc]
    by (auto simp: sids ids_present_def space_ids_of_def connection_ids_of_def
        endpoints_resolve_def)
qed

theorem validate_space_data_valid_iff_witness:
  "v_is_valid (validate_space_data
      \<lparr> sd_spaces = [\<lparr> os_id = Some ''space_000'', os_volume = Some 0,
                        os_ventilationRate = Some 25 \<rparr>],
        sd_connections = [\<lparr> oc_id = Some ''opening_000'',
                             oc_connects = Some [''space_000'', ''space_exterior''] \<rparr>] \<rparr>) \<and>
   ids_present
      \<lparr> sd_spaces = [\<lparr> os_id = Some ''space_000'', os_volume = Some 0,
                        os_ventilationRate = Some 25 \<rparr>],
        sd_connections = [\<lparr> oc_id = Some ''opening_000'',
                             oc_connects = Some [''space_000'', ''space_exterior''] \<rparr>] \<rparr> \<and>
   endpoints_resolve
      \<lparr> sd_spaces = [\<lparr> os_id = Some ''space_000'', os_volume = Some 0,
                        os_ventilationRate = Some 25 \<rparr>],
        sd_connections = [\<lparr> oc_id = Some ''opening_000'',
                             oc_connects = Some [''space_000'', ''space_exterior''] \<rparr>] \<rparr>"
  using validate_space_data_valid_iff [of
      "\<lparr> sd_spaces = [\<lparr> os_id = Some ''space_000'', os_volume = Some 0,
                        os_ventilationRate = Some 25 \<rparr>],
        sd_connections = [\<lparr> oc_id = Some ''opening_000'',
                             oc_connects = Some [''space_000'', ''space_exterior''] \<rparr>] \<rparr>"]
  by (simp add: ids_present_def endpoints_resolve_def space_ids_of_def connection_ids_of_def
      map_filter_simps startswith_def)

section \<open>Results on the assembled record\<close>

lemma process_openings_raises:
  "\<exists>opening \<in> set openings. get_default [] (o_connects opening) \<noteq> [] \<Longrightarrow>
     process_openings openings acc = Inl TypeError"
  by (induction openings arbitrary: acc) (auto split: list.splits)

lemma generate_space_data_no_connections:
  "generate_space_data metadata spaces openings rates paths = Inr r \<Longrightarrow>
     \<forall>s \<in> set (rd_spaces r). ps_connections s = []"
  by (auto simp: generate_space_data_def process_spaces_def process_space_def Let_def
      split: sum.splits)

text \<open>
  C8. \<open>generate_space_data\<close> is to return a record whose space entries list the
  identifiers of their incident openings. At one space and one window of that space
  the call raises TypeError instead: the loop that is to fill the connections iterates
  over the method \<open>_process_spaces\<close>.
\<close>

theorem generate_space_data_raises_TypeError:
  "generate_space_data metadata [example_space] [example_window] [(''space_000'', 10)] []
     = Inl TypeError"
  by (simp add: generate_space_data_def example_window_def get_default_def)

section \<open>Results on the opening-state override\<close>

lemma update_rates_result:
  assumes "distinct (map fst vps)" and "fst ` set vps \<subseteq> fst ` set upd"
  shows "\<exists>u. update_rates st vps upd = Inr u \<and>
           (\<forall>k. map_of u k =
              (case map_of upd k of
                 None \<Rightarrow> None
               | Some a \<Rightarrow>
                   Some (if (case map_of vps k of None \<Rightarrow> False
                             | Some ps \<Rightarrow> path_affected st ps)
                         then a * 0.7 else a)))"
  using assms
proof (induction vps arbitrary: upd)
  case Nil
  then show ?case by (auto split: option.splits)
next
  case (Cons item vps)
  obtain sid paths where item: "item = (sid, paths)" by (cases item)
  from Cons.prems(2) item have "sid \<in> fst ` set upd" by auto
  then have "map_of upd sid \<noteq> None" by (simp add: map_of_eq_None_iff)
  then obtain a where a: "map_of upd sid = Some a" by blast
  have notin: "map_of vps sid = None"
    using Cons.prems(1) item by (simp add: map_of_eq_None_iff)
  show ?case
  proof (cases "path_affected st paths")
    case True
    let ?upd = "AList.update sid (a * 0.7) upd"
    have "fst ` set ?upd = insert sid (fst ` set upd)"
      using dom_update [of sid "a * 0.7" upd] by (simp add: dom_map_of_conv_image_fst)
    then have "fst ` set vps \<subseteq> fst ` set ?upd"
      using Cons.prems(2) by auto
    with Cons.IH [of ?upd] Cons.prems(1) obtain u where
      u: "update_rates st vps ?upd = Inr u" and
      m: "\<And>k. map_of u k =
              (case map_of ?upd k of
                 None \<Rightarrow> None
               | Some a \<Rightarrow>
                   Some (if (case map_of vps k of None \<Rightarrow> False
                             | Some ps \<Rightarrow> path_affected st ps)
                         then a * 0.7 else a))"
      by auto
    show ?thesis
    proof (intro exI conjI allI)
      show "update_rates st (item # vps) upd = Inr u"
        using True a u by (simp add: item)
    next
      fix k
      show "map_of u k =
          (case map_of upd k of None \<Rightarrow> None
           | Some a \<Rightarrow> Some (if case map_of (item # vps) k of None \<Rightarrow> False
                     | Some x \<Rightarrow> path_affected st x then a * 0.7 else a))"
      proof (cases "k = sid")
        case True
        then show ?thesis using \<open>path_affected st paths\<close> a notin
          by (simp add: m item update_conv' cong: option.case_cong)
      next
        case False
        then show ?thesis by (simp add: m item update_conv' cong: option.case_cong)
      qed
    qed
  next
    case False
    have "fst ` set vps \<subseteq> fst ` set upd"
      using Cons.prems(2) by auto
    with Cons.IH [of upd] Cons.prems(1) obtain u where
      u: "update_rates st vps upd = Inr u" and
      m: "\<And>k. map_of u k =
              (case map_of upd k of
                 None \<Rightarrow> None
               | Some a \<Rightarrow>
                   Some (if (case map_of vps k of None \<Rightarrow> False
                             | Some ps \<Rightarrow> path_affected st ps)
                         then a * 0.7 else a))"
      by auto
    show ?thesis
    proof (intro exI conjI allI)
      show "update_rates st (item # vps) upd = Inr u"
        using False u by (simp add: item)
    next
      fix k
      show "map_of u k =
          (case map_of upd k of None \<Rightarrow> None
           | Some a \<Rightarrow> Some (if case map_of (item # vps) k of None \<Rightarrow> False
                     | Some x \<Rightarrow> path_affected st x then a * 0.7 else a))"
      proof (cases "k = sid")
        case True
        then show ?thesis using \<open>\<not> path_affected st paths\<close> a notin
          by (simp add: m item cong: option.case_cong)
      next
        case False
        then show ?thesis by (simp add: m item cong: option.case_cong)
      qed
    qed
  qed
qed

text \<open>
  C7. In a calculator whose two dictionaries are well formed (the keys of the path
  dictionary are distinct and all have a stored rate, as after \<open>calculate_ach_rates\<close>),
  for every opening-state map the call returns a derived map in which a space whose path
  list traverses a closed opening has 0.7 times its stored ACH and every other space has
  its stored ACH, and the calculator, with its stored ACH map, is unchanged.
\<close>

theorem update_ach_for_opening_state_scales:
  assumes "distinct (map fst (ventilation_paths self))"
    and "fst ` set (ventilation_paths self) \<subseteq> fst ` set (ach_rates self)"
  shows "\<exists>updated_rates.
           update_ach_for_opening_state self opening_states = (Inr updated_rates, self) \<and>
           (\<forall>space_id.
              map_of updated_rates space_id =
                (case map_of (ach_rates self) space_id of
                   None \<Rightarrow> None
                 | Some a \<Rightarrow>
                     Some (if (case map_of (ventilation_paths self) space_id of
                                 None \<Rightarrow> False
                               | Some paths \<Rightarrow> path_affected opening_states paths)
                           then a * 0.7 else a)))"
  using update_rates_result [OF assms, of opening_states]
  by (simp add: update_ach_for_opening_state_def)

theorem update_ach_for_opening_state_scales_witness:
  "distinct (map fst (ventilation_paths example_calculator)) \<and>
   fst ` set (ventilation_paths example_calculator) \<subseteq> fst ` set (ach_rates example_calculator) \<and>
   (\<exists>updated_rates.
      update_ach_for_opening_state example_calculator [''opening_001'' \<mapsto> ''closed'']
        = (Inr updated_rates, example_calculator) \<and>
      map_of updated_rates ''space_000'' = Some 10 \<and>
      map_of updated_rates ''space_001'' = Some (4 * 0.7))"
proof -
  have keys: "distinct (map fst (ventilation_paths example_calculator))"
    by (simp add: example_calculator_def)
  have stored: "fst ` set (ventilation_paths example_calculator)
      \<subseteq> fst ` set (ach_rates example_calculator)"
    by (simp add: example_calculator_def)
  obtain updated_rates where
    call: "update_ach_for_opening_state example_calculator [''opening_001'' \<mapsto> ''closed'']
        = (Inr updated_rates, example_calculator)" and
    rates: "\<And>space_id. map_of updated_rates space_id =
        (case map_of (ach_rates example_calculator) space_id of
           None \<Rightarrow> None
         | Some a \<Rightarrow>
             Some (if (case map_of (ventilation_paths example_calculator) space_id of
                         None \<Rightarrow> False
                       | Some paths \<Rightarrow> path_affected [''opening_001'' \<mapsto> ''closed''] paths)
                   then a * 0.7 else a))"
    using update_ach_for_opening_state_scales [OF keys stored,
        of "[''opening_001'' \<mapsto> ''closed'']"]
    by blast
  have "map_of updated_rates ''space_000'' = Some 10"
    by (simp add: rates example_calculator_def path_affected_def example_path_def)
  moreover have "map_of updated_rates ''space_001'' = Some (4 * 0.7)"
    by (simp add: rates example_calculator_def path_affected_def example_path_def)
  ultimately show ?thesis
    using keys stored call by blast
qed

section \<open>Results on the exterior removal\<close>

lemma flood_loop_clears:
  "flood_loop sh g q = Inr g' \<Longrightarrow> g' c \<Longrightarrow> g c"
proof (induction sh g q rule: flood_loop.induct)
  case (1 shape grid)
  then show ?case by simp
next
  case (2 shape grid v queue)
  from "2.prems"(1) obtain x where x: "np_index shape v = Some x"
    by (auto split: option.splits)
  show ?case
  proof (cases "grid x")
    case False
    with "2.prems" x have "flood_loop shape grid queue = Inr g'" by simp
    from "2.IH"(1) [OF x _ this "2.prems"(2)] False show ?thesis by simp
  next
    case True
    let ?g = "grid(x := False)"
    from "2.prems" x True have
      "flood_loop shape ?g
         (queue @ filter (\<lambda>n. in_bounds shape n \<and> ?g n) (neighbors6 v)) = Inr g'"
      by simp
    from "2.IH"(2) [OF x _ this "2.prems"(2)] True have "?g c" by simp
    then show ?thesis by (simp split: if_splits)
  qed
qed

lemma flood_fill_3d_clears: "flood_fill_3d sh g s = Inr g' \<Longrightarrow> g' c \<Longrightarrow> g c"
  by (auto simp: flood_fill_3d_def split: option.splits if_splits dest: flood_loop_clears)

lemma flood_all_clears: "flood_all sh g seeds = Inr g' \<Longrightarrow> g' c \<Longrightarrow> g c"
proof (induction seeds arbitrary: g)
  case Nil
  then show ?case by simp
next
  case (Cons s seeds)
  from Cons.prems(1) obtain g1 where g1: "flood_fill_3d sh g s = Inr g1"
    and rest: "flood_all sh g1 seeds = Inr g'"
    by (auto split: sum.splits)
  from Cons.IH [OF rest Cons.prems(2)] have "g1 c" .
  with g1 show ?case by (rule flood_fill_3d_clears)
qed

lemma remove_external_space_clears:
  "remove_external_space shuffle m sh g = Inr g' \<Longrightarrow> g' c \<Longrightarrow> g c"
  by (auto simp: remove_external_space_def Let_def split: if_splits dest: flood_all_clears)

lemma build_spaces_voxels:
  "build_spaces mv s orig comps n = Inr spaces \<Longrightarrow> sp \<in> set spaces \<Longrightarrow>
     d_voxel_indices sp \<in> set comps"
proof (induction comps arbitrary: n spaces)
  case Nil
  then show ?case by simp
next
  case (Cons component comps)
  show ?case
  proof (cases "real (length component) * s ^ 3 < mv")
    case True
    with Cons.prems have "build_spaces mv s orig comps n = Inr spaces"
      by (simp add: Let_def)
    from Cons.IH [OF this Cons.prems(2)] show ?thesis by simp
  next
    case False
    with Cons.prems(1) obtain first rest where
      spaces: "spaces = first # rest" and
      first: "d_voxel_indices first = component" and
      rest: "build_spaces mv s orig comps (Suc n) = Inr rest"
      by (auto simp: Let_def split: if_splits sum.splits)
    show ?thesis
    proof (cases "sp = first")
      case True
      with first show ?thesis by simp
    next
      case False
      with Cons.prems(2) spaces have "sp \<in> set rest" by simp
      from Cons.IH [OF rest this] show ?thesis by simp
    qed
  qed
qed

lemma find_connected_components_labelled:
  assumes "\<And>v. fst (label sh g) v \<noteq> 0 \<Longrightarrow> g v"
    and "component \<in> set (find_connected_components label sh g)" and "v \<in> set component"
  shows "g v"
proof -
  obtain labeled n where l: "label sh g = (labeled, n)" by (cases "label sh g")
  from assms(2,3) l have "labeled v \<noteq> 0"
    by (auto simp: find_connected_components_def)
  with assms(1) [of v] l show ?thesis by simp
qed

text \<open>
  C9. Exterior removal never creates empty voxels: every voxel set in the grid that
  \<open>_remove_external_space\<close> returns was set (empty) in its input. Hence, with a labelling
  that gives a positive label to set voxels only (as \<open>scipy.ndimage.label\<close> does), every
  voxel of every detected space is a voxel that the occupancy grid leaves free.
\<close>

theorem remove_external_space_only_clears:
  assumes "\<And>g v. fst (label (vd_shape voxel_data) g) v \<noteq> 0 \<Longrightarrow> g v"
  shows "(remove_external_space shuffle max_seeds shape empty_space = Inr filled_spaces \<longrightarrow>
            (\<forall>v. filled_spaces v \<longrightarrow> empty_space v)) \<and>
         (vd_voxel_grid voxel_data = Some voxel_grid \<and>
          detect_spaces config label shuffle voxel_data = Inr spaces \<longrightarrow>
            (\<forall>space \<in> set spaces. \<forall>v \<in> set (d_voxel_indices space). \<not> voxel_grid v))"
proof (intro conjI impI allI ballI)
  fix v
  assume "remove_external_space shuffle max_seeds shape empty_space = Inr filled_spaces"
    and "filled_spaces v"
  then show "empty_space v" by (rule remove_external_space_clears)
next
  fix space v
  assume run: "vd_voxel_grid voxel_data = Some voxel_grid \<and>
      detect_spaces config label shuffle voxel_data = Inr spaces"
    and space: "space \<in> set spaces" and v: "v \<in> set (d_voxel_indices space)"
  let ?empty = "\<lambda>v. \<not> voxel_grid v"
  from run obtain filled where
    filled: "remove_external_space shuffle (max_seed_points config) (vd_shape voxel_data) ?empty
       = Inr filled" and
    built: "build_spaces (min_space_volume config) (vd_base_voxel_size voxel_data)
       (vd_origin voxel_data)
       (find_connected_components label (vd_shape voxel_data) filled) 0 = Inr spaces"
    by (auto simp: detect_spaces_def Let_def split: sum.splits)
  from build_spaces_voxels [OF built space] have
    "d_voxel_indices space \<in> set (find_connected_components label (vd_shape voxel_data) filled)" .
  then have "filled v"
    using assms [of filled] v
    by (rule_tac find_connected_components_labelled
        [of label "vd_shape voxel_data" filled "d_voxel_indices space" v]) auto
  with filled have "?empty v" by (rule remove_external_space_clears)
  then show "\<not> voxel_grid v" .
qed

lemma example_removal:
  "map_sum id (argwhere (5, 3, 3))
     (remove_external_space keep_order 5000 (5, 3, 3) (\<lambda>v. \<not> example_occupancy v))
   = Inr [(2, 1, 1)]"
  by code_simp

lemma example_detection:
  "map_sum id (map d_voxel_indices)
     (detect_spaces example_detector_config single_label keep_order example_voxel_data)
   = Inr [[(2, 1, 1)]]"
  by code_simp

theorem remove_external_space_only_clears_witness:
  "(\<exists>filled_spaces.
      remove_external_space keep_order 5000 (5, 3, 3) (\<lambda>v. \<not> example_occupancy v)
        = Inr filled_spaces \<and>
      (\<forall>v. filled_spaces v \<longrightarrow> \<not> example_occupancy v)) \<and>
   (\<exists>spaces.
      vd_voxel_grid example_voxel_data = Some example_occupancy \<and>
      detect_spaces example_detector_config single_label keep_order example_voxel_data
        = Inr spaces \<and>
      spaces \<noteq> [] \<and>
      (\<forall>space \<in> set spaces. \<forall>v \<in> set (d_voxel_indices space). \<not> example_occupancy v))"
proof -
  have contract: "\<And>g v. fst (single_label (vd_shape example_voxel_data) g) v \<noteq> 0 \<Longrightarrow> g v"
    by (simp add: single_label_def split: if_splits)
  obtain filled_spaces where removal:
    "remove_external_space keep_order 5000 (5, 3, 3) (\<lambda>v. \<not> example_occupancy v)
       = Inr filled_spaces"
    using example_removal
    by (cases "remove_external_space keep_order 5000 (5, 3, 3) (\<lambda>v. \<not> example_occupancy v)")
      auto
  obtain spaces where detection:
    "detect_spaces example_detector_config single_label keep_order example_voxel_data
       = Inr spaces" and nonempty: "spaces \<noteq> []"
    using example_detection
    by (cases "detect_spaces example_detector_config single_label keep_order
          example_voxel_data") auto
  have grid: "vd_voxel_grid example_voxel_data = Some example_occupancy"
    by (simp add: example_voxel_data_def)
  have "(remove_external_space keep_order 5000 (5, 3, 3) (\<lambda>v. \<not> example_occupancy v)
          = Inr filled_spaces \<longrightarrow>
        (\<forall>v. filled_spaces v \<longrightarrow> \<not> example_occupancy v)) \<and>
      (vd_voxel_grid example_voxel_data = Some example_occupancy \<and>
       detect_spaces example_detector_config single_label keep_order example_voxel_data
          = Inr spaces \<longrightarrow>
        (\<forall>space \<in> set spaces. \<forall>v \<in> set (d_voxel_indices space). \<not> example_occupancy v))"
    by (rule remove_external_space_only_clears
        [where label = single_label and voxel_data = example_voxel_data])
      (erule contract)
  with removal detection nonempty grid show ?thesis by blast
qed

section \<open>Results on the determinism of two runs\<close>









section \<open>Results on the enumeration of the ventilation paths\<close>







lemma sum_list_concat_map: "sum_list (concat xss) = sum_list (map sum_list xss)"
  for xss :: "real list list"
  by (induction xss) auto

lemma sum_list_constant: "sum_list (map (\<lambda>x. c) xs) = real (length xs) * c"
  by (induction xs) (auto simp: algebra_simps)

lemma make_path_fields:
  "p_route (make_path config g ext r) = r"
  "p_exterior (make_path config g ext r) = ext"
  "p_length (make_path config g ext r) = length r - 1"
  "p_weight (make_path config g ext r) = sum_list (map (edge_weight \<circ> edge_attrs g) (path_edges r))"
  "p_decay_factor (make_path config g ext r) = path_decay config ^ (length r - 1 - 1)"
  "p_total_opening_area (make_path config g ext r) =
     sum_list (map (\<lambda>e. real (length (get_default [] (e_openings (edge_attrs g e)))) *
                         estimated_area (edge_weight (edge_attrs g e))) (path_edges r))"
  "p_via (make_path config g ext r) =
     concat (map (\<lambda>e. get_default [] (e_openings (edge_attrs g e))) (path_edges r))"
proof -
  have area: "sum_list (map oi_estimated_area (edge_openings_info d)) =
      real (length (get_default [] (e_openings d))) * estimated_area (edge_weight d)" for d
    by (simp add: edge_openings_info_def comp_def sum_list_constant)
  have via: "map oi_id (edge_openings_info d) = get_default [] (e_openings d)" for d
    by (simp add: edge_openings_info_def comp_def)
  show "p_route (make_path config g ext r) = r"
    "p_exterior (make_path config g ext r) = ext"
    "p_length (make_path config g ext r) = length r - 1"
    "p_weight (make_path config g ext r) = sum_list (map (edge_weight \<circ> edge_attrs g) (path_edges r))"
    "p_decay_factor (make_path config g ext r) = path_decay config ^ (length r - 1 - 1)"
    by (simp_all add: make_path_def Let_def)
  show "p_total_opening_area (make_path config g ext r) =
     sum_list (map (\<lambda>e. real (length (get_default [] (e_openings (edge_attrs g e)))) *
                         estimated_area (edge_weight (edge_attrs g e))) (path_edges r))"
    by (simp add: make_path_def Let_def sum_list_concat_map comp_def area map_concat)
  show "p_via (make_path config g ext r) =
     concat (map (\<lambda>e. get_default [] (e_openings (edge_attrs g e))) (path_edges r))"
    by (simp add: make_path_def Let_def map_concat comp_def via)
qed

lemma paths_to_exteriors_members:
  assumes "paths_to_exteriors config g space_id exterior = Inr found"
  shows "length found \<le> 5 * length exterior \<and>
         (\<forall>p \<in> set found. \<exists>ext \<in> set exterior. \<exists>r \<in> set (take 5 (all_simple_paths g space_id ext 6)).
            p = make_path config g ext r)"
  using assms
proof (induction exterior arbitrary: found)
  case Nil
  then show ?case by simp
next
  case (Cons ext rest)
  from Cons.prems obtain reachable others where
    others: "paths_to_exteriors config g space_id rest = Inr others" and
    found: "found = (if reachable
                     then map (make_path config g ext) (take 5 (all_simple_paths g space_id ext 6))
                     else []) @ others"
    by (auto split: sum.splits)
  from Cons.IH [OF others] found show ?case by (auto split: if_splits)
qed


lemma find_ventilation_paths_made:
  assumes "find_ventilation_paths config space_id g exterior = Inr paths" "p \<in> set paths"
  shows "\<exists>ext \<in> set exterior. \<exists>r \<in> set (take 5 (all_simple_paths g space_id ext 6)).
           p = make_path config g ext r"
proof -
  from assms(1) obtain found where
    found: "paths_to_exteriors config g space_id exterior = Inr found" and
    paths: "paths = sort_key p_weight found"
    by (auto simp: find_ventilation_paths_def split: sum.splits)
  from assms(2) paths have "p \<in> set found" by simp
  with paths_to_exteriors_members [OF found] show ?thesis by blast
qed








section \<open>Results on the contribution of a path\<close>

lemma estimated_area_single:
  "o_area opening = Some area \<Longrightarrow> 0 < area \<Longrightarrow> estimated_area (opening_weight opening) = area"
  by (simp add: estimated_area_def opening_weight_def)











section \<open>Results on the range of the ACH values\<close>

lemma edge_weight_nonneg:
  assumes "weights_nonneg g"
  shows "0 \<le> edge_weight (edge_attrs g e)"
proof -
  obtain u v where e: "e = (u, v)" by (cases e)
  show ?thesis
  proof (cases "get_edge_data g u v")
    case None
    then show ?thesis
      by (simp add: e edge_attrs_def get_default_def no_attributes_def edge_weight_def)
  next
    case (Some d)
    then have d: "(v, d) \<in> set (adj g u)"
      by (simp add: get_edge_data_def map_of_SomeD)
    then obtain attrs nbrs where "map_of g u = Some (attrs, nbrs)" and "(v, d) \<in> set nbrs"
      by (cases "map_of g u") (auto simp: adj_def)
    then have "(u, attrs, nbrs) \<in> set g" by (simp add: map_of_SomeD)
    with assms \<open>(v, d) \<in> set nbrs\<close> have "0 \<le> edge_weight d"
      by (fastforce simp: weights_nonneg_def)
    with Some show ?thesis by (simp add: e edge_attrs_def get_default_def)
  qed
qed

lemma estimated_area_pos: "0 < estimated_area w"
  by (simp add: estimated_area_def)

lemma make_path_nonneg:
  assumes "weights_nonneg g"
  shows "0 \<le> p_weight (make_path config g ext r)"
    and "0 \<le> p_total_opening_area (make_path config g ext r)"
proof -
  show "0 \<le> p_weight (make_path config g ext r)"
    unfolding make_path_fields
    by (rule sum_list_nonneg) (auto simp: edge_weight_nonneg [OF assms])
  show "0 \<le> p_total_opening_area (make_path config g ext r)"
    unfolding make_path_fields
    by (rule sum_list_nonneg)
      (auto intro!: mult_nonneg_nonneg simp: less_imp_le [OF estimated_area_pos])
qed

lemma sequence_err_returns:
  "(\<forall>x \<in> set xs. \<exists>v. x = Inr v) \<Longrightarrow> \<exists>vs. sequence_err xs = Inr vs"
  by (induction xs) auto

lemma paths_to_exteriors_returns:
  assumes "has_node g space_id" "\<forall>e \<in> set exterior. has_node g e"
  shows "\<exists>found. paths_to_exteriors config g space_id exterior = Inr found"
  using assms(2)
proof (induction exterior)
  case Nil
  then show ?case by simp
next
  case (Cons ext rest)
  then obtain others where "paths_to_exteriors config g space_id rest = Inr others" by auto
  moreover have "\<exists>r. has_path g space_id ext = Inr r"
    using assms(1) Cons.prems by (simp add: has_path_def)
  ultimately show ?case by auto
qed

lemma calculate_space_ach_returns:
  assumes "weights_nonneg g" "0 \<le> opening_influence config"
    and "find_ventilation_paths config space_id g exterior = Inr paths"
  shows "\<exists>a. calculate_space_ach config space paths = Inr a"
proof -
  have made: "\<exists>ext r. p = make_path config g ext r" if "p \<in> set paths" for p
    using find_ventilation_paths_made [OF assms(3) that] by blast
  have "\<forall>x \<in> set (map (path_contribution config) paths). \<exists>v. x = Inr v"
  proof
    fix x assume "x \<in> set (map (path_contribution config) paths)"
    then obtain p where p: "p \<in> set paths" and x: "x = path_contribution config p" by auto
    from made [OF p] make_path_nonneg(2) [OF assms(1)]
    have "0 \<le> p_total_opening_area p" by auto
    with assms(2) show "\<exists>v. x = Inr v"
      by (auto simp: x path_contribution_def py_pow_def)
  qed
  then obtain cs where cs: "sequence_err (map (path_contribution config) paths) = Inr cs"
    using sequence_err_returns by blast
  have "\<forall>x \<in> set (map (\<lambda>path. py_inverse (p_weight path + 0.1)) paths). \<exists>v. x = Inr v"
  proof
    fix x assume "x \<in> set (map (\<lambda>path. py_inverse (p_weight path + 0.1)) paths)"
    then obtain p where p: "p \<in> set paths" and x: "x = py_inverse (p_weight p + 0.1)" by auto
    from made [OF p] make_path_nonneg(1) [OF assms(1)] have "0 \<le> p_weight p" by auto
    then show "\<exists>v. x = Inr v" by (simp add: x py_inverse_def)
  qed
  then obtain ws where
    ws: "sequence_err (map (\<lambda>path. py_inverse (p_weight path + 0.1)) paths) = Inr ws"
    using sequence_err_returns by blast
  show ?thesis by (simp add: calculate_space_ach_def cs ws Let_def)
qed

lemma rate_spaces_returns:
  assumes "weights_nonneg g" "0 \<le> opening_influence config"
    and "\<forall>e \<in> set exterior. has_node g e" "\<forall>s \<in> set spaces. has_node g (s_id s)"
  shows "\<exists>self'. rate_spaces config g exterior spaces self = Inr self'"
  using assms(4)
proof (induction spaces arbitrary: self)
  case Nil
  then show ?case by simp
next
  case (Cons space rest)
  from Cons.prems have node: "has_node g (s_id space)" by simp
  from paths_to_exteriors_returns [OF node assms(3), of config] obtain found where
    "paths_to_exteriors config g (s_id space) exterior = Inr found" by blast
  then obtain paths where
    paths: "find_ventilation_paths config (s_id space) g exterior = Inr paths"
    by (simp add: find_ventilation_paths_def)
  from calculate_space_ach_returns [OF assms(1,2) paths] obtain a where
    a: "calculate_space_ach config space paths = Inr a" by blast
  from Cons.IH Cons.prems show ?case by (simp add: paths a)
qed

lemma calculate_ach_rates_returns:
  assumes "weights_nonneg g" "0 \<le> opening_influence config"
    and "\<forall>e \<in> set exterior. has_node g e" "\<forall>s \<in> set spaces. has_node g (s_id s)"
  shows "\<exists>self. calculate_ach_rates config spaces g exterior = Inr self"
  using rate_spaces_returns [OF assms, of "\<lparr> ach_rates = [], ventilation_paths = [] \<rparr>"]
  by (auto simp: calculate_ach_rates_def)

lemma keys_update: "fst ` set (AList.update k v al) = insert k (fst ` set al)"
  using dom_update [of k v al] by (simp add: dom_map_of_conv_image_fst)

lemma calculate_space_ach_range:
  assumes "fst (low_ach_range config) \<le> high_ach config"
    and "calculate_space_ach config space paths = Inr a"
  shows "fst (low_ach_range config) \<le> a \<and> a \<le> high_ach config"
  using assms
  by (auto simp: calculate_space_ach_def Let_def split: if_splits sum.splits)

lemma rates_within_update:
  "rates_within lo hi rates \<Longrightarrow> lo \<le> a \<Longrightarrow> a \<le> hi \<Longrightarrow>
     rates_within lo hi (AList.update k a rates)"
  by (simp add: rates_within_def update_conv')

lemma rate_spaces_invariant:
  assumes "fst (low_ach_range config) \<le> high_ach config"
    and "rate_spaces config g exts spaces self = Inr self'"
    and "rates_within (fst (low_ach_range config)) (high_ach config) (ach_rates self)"
  shows "rates_within (fst (low_ach_range config)) (high_ach config) (ach_rates self') \<and>
         fst ` set (ach_rates self') = fst ` set (ach_rates self) \<union> s_id ` set spaces"
  using assms(2,3)
proof (induction spaces arbitrary: self)
  case Nil
  then show ?case by simp
next
  case (Cons space rest)
  from Cons.prems(1) obtain paths a where
    paths: "find_ventilation_paths config (s_id space) g exts = Inr paths" and
    a: "calculate_space_ach config space paths = Inr a" and
    rest: "rate_spaces config g exts rest
      \<lparr> ach_rates = AList.update (s_id space) a (ach_rates self),
        ventilation_paths = AList.update (s_id space) paths (ventilation_paths self) \<rparr>
      = Inr self'"
    by (auto split: sum.splits)
  from calculate_space_ach_range [OF assms(1) a] Cons.prems(2)
  have "rates_within (fst (low_ach_range config)) (high_ach config)
      (AList.update (s_id space) a (ach_rates self))"
    by (simp add: rates_within_update)
  with Cons.IH [OF rest] show ?case
    by (auto simp: keys_update)
qed

lemma smooth_pair_within:
  assumes "rates_within lo hi rates"
    and "startswith u ''space_exterior'' \<or> startswith v ''space_exterior'' \<or>
         (u \<in> fst ` set rates \<and> v \<in> fst ` set rates)"
  shows "rates_within lo hi (smooth_pair rates (u, v)) \<and>
         fst ` set (smooth_pair rates (u, v)) = fst ` set rates"
proof (cases "startswith u ''space_exterior'' \<or> startswith v ''space_exterior''")
  case True
  with assms(1) show ?thesis by (auto simp: smooth_pair_def)
next
  case False
  with assms(2) have u: "u \<in> fst ` set rates" and v: "v \<in> fst ` set rates" by auto
  from u obtain a1 where a1: "map_of rates u = Some a1"
    by (metis map_of_eq_None_iff not_Some_eq)
  from v obtain a2 where a2: "map_of rates v = Some a2"
    by (metis map_of_eq_None_iff not_Some_eq)
  from assms(1) a1 a2 have b1: "lo \<le> a1" "a1 \<le> hi" and b2: "lo \<le> a2" "a2 \<le> hi"
    by (auto simp: rates_within_def)
  have r1: "rate_of rates u = a1" and r2: "rate_of rates v = a2"
    by (simp_all add: rate_of_def get_default_def a1 a2)
  have keys: "insert v (insert u (fst ` set rates)) = fst ` set rates"
    using u v by auto
  show ?thesis
  proof (cases "\<bar>a1 - a2\<bar> > 5")
    case False
    with \<open>\<not> (startswith u ''space_exterior'' \<or> startswith v ''space_exterior'')\<close> assms(1)
    show ?thesis by (simp add: smooth_pair_def r1 r2 Let_def)
  next
    case True
    let ?avg = "(a1 + a2) / 2"
    show ?thesis
    proof (cases "a1 > a2")
      case True
      have n1: "lo \<le> a1 - (a1 - ?avg) * 0.3" "a1 - (a1 - ?avg) * 0.3 \<le> hi"
        using b1 b2 True by (simp_all add: field_simps)
      have n2: "lo \<le> a2 + (?avg - a2) * 0.3" "a2 + (?avg - a2) * 0.3 \<le> hi"
        using b1 b2 True by (simp_all add: field_simps)
      have "smooth_pair rates (u, v) =
          AList.update v (a2 + (?avg - a2) * 0.3)
            (AList.update u (a1 - (a1 - ?avg) * 0.3) rates)"
        using \<open>\<not> (startswith u ''space_exterior'' \<or> startswith v ''space_exterior'')\<close>
          \<open>\<bar>a1 - a2\<bar> > 5\<close> True
        by (simp add: smooth_pair_def r1 r2 Let_def)
      then show ?thesis
        using n1 n2 assms(1) keys by (simp add: rates_within_update keys_update)
    next
      case False
      have n1: "lo \<le> a1 + (?avg - a1) * 0.3" "a1 + (?avg - a1) * 0.3 \<le> hi"
        using b1 b2 False by (simp_all add: field_simps)
      have n2: "lo \<le> a2 - (a2 - ?avg) * 0.3" "a2 - (a2 - ?avg) * 0.3 \<le> hi"
        using b1 b2 False by (simp_all add: field_simps)
      have "smooth_pair rates (u, v) =
          AList.update v (a2 - (a2 - ?avg) * 0.3)
            (AList.update u (a1 + (?avg - a1) * 0.3) rates)"
        using \<open>\<not> (startswith u ''space_exterior'' \<or> startswith v ''space_exterior'')\<close>
          \<open>\<bar>a1 - a2\<bar> > 5\<close> False
        by (simp add: smooth_pair_def r1 r2 Let_def)
      then show ?thesis
        using n1 n2 assms(1) keys by (simp add: rates_within_update keys_update)
    qed
  qed
qed

lemma smooth_all_within:
  assumes "rates_within lo hi rates"
    and "\<forall>(u, v) \<in> set es. startswith u ''space_exterior'' \<or> startswith v ''space_exterior'' \<or>
           (u \<in> fst ` set rates \<and> v \<in> fst ` set rates)"
  shows "rates_within lo hi (fold (\<lambda>e r. smooth_pair r e) es rates) \<and>
         fst ` set (fold (\<lambda>e r. smooth_pair r e) es rates) = fst ` set rates"
  using assms
proof (induction es arbitrary: rates)
  case Nil
  then show ?case by simp
next
  case (Cons e es)
  obtain u v where e: "e = (u, v)" by (cases e)
  from Cons.prems e have
    "startswith u ''space_exterior'' \<or> startswith v ''space_exterior'' \<or>
       (u \<in> fst ` set rates \<and> v \<in> fst ` set rates)" by auto
  from smooth_pair_within [OF Cons.prems(1) this] have
    step: "rates_within lo hi (smooth_pair rates (u, v))" and
    keys: "fst ` set (smooth_pair rates (u, v)) = fst ` set rates" by auto
  have "\<forall>(u', v') \<in> set es.
      startswith u' ''space_exterior'' \<or> startswith v' ''space_exterior'' \<or>
      (u' \<in> fst ` set (smooth_pair rates (u, v)) \<and> v' \<in> fst ` set (smooth_pair rates (u, v)))"
    using Cons.prems(2) by (simp add: keys)
  from Cons.IH [OF step this] show ?case by (simp add: e keys)
qed

lemma rate_of_near:
  assumes "rates_near lo hi S rates"
  shows "min lo 0 \<le> rate_of rates k \<and> rate_of rates k \<le> max hi 0 \<and>
         (k \<in> S \<longrightarrow> lo \<le> rate_of rates k \<and> rate_of rates k \<le> hi)"
proof (cases "map_of rates k")
  case None
  then have "k \<notin> fst ` set rates" by (simp add: map_of_eq_None_iff)
  with assms have "k \<notin> S" by (auto simp: rates_near_def)
  with None show ?thesis by (simp add: rate_of_def get_default_def)
next
  case (Some a)
  with assms show ?thesis by (simp add: rate_of_def get_default_def rates_near_def)
qed

lemma rates_near_update2:
  assumes "rates_near lo hi S rates"
    and "min lo 0 \<le> x \<and> x \<le> max hi 0 \<and> (u \<in> S \<longrightarrow> lo \<le> x \<and> x \<le> hi)"
    and "min lo 0 \<le> y \<and> y \<le> max hi 0 \<and> (v \<in> S \<longrightarrow> lo \<le> y \<and> y \<le> hi)"
  shows "rates_near lo hi S (AList.update v y (AList.update u x rates))"
  using assms by (auto simp: rates_near_def update_conv' keys_update)

lemma smooth_pair_near:
  assumes near: "rates_near lo hi S rates"
    and cfg: "lo \<le> hi" "lo \<le> 17 / 4" "- (17 / 4) \<le> hi"
  shows "rates_near lo hi S (smooth_pair rates (u, v))"
proof -
  let ?x = "rate_of rates u" and ?y = "rate_of rates v"
  let ?avg = "(?x + ?y) / 2"
  note bx = rate_of_near [OF near, of u] and by' = rate_of_near [OF near, of v]
  show ?thesis
  proof (cases "startswith u ''space_exterior'' \<or> startswith v ''space_exterior'' \<or>
      \<not> \<bar>?x - ?y\<bar> > 5")
    case True
    with near show ?thesis by (auto simp: smooth_pair_def Let_def)
  next
    case False
    then have big: "\<bar>?x - ?y\<bar> > 5" and
      inner: "\<not> (startswith u ''space_exterior'' \<or> startswith v ''space_exterior'')" by auto
    show ?thesis
    proof (cases "?x > ?y")
      case True
      have eq: "smooth_pair rates (u, v) =
          AList.update v (?y + (?avg - ?y) * 0.3) (AList.update u (?x - (?x - ?avg) * 0.3) rates)"
        using inner big True by (simp add: smooth_pair_def Let_def)
      have x': "?x - (?x - ?avg) * 0.3 = 0.85 * ?x + 0.15 * ?y" by (simp add: field_simps)
      have y': "?y + (?avg - ?y) * 0.3 = 0.85 * ?y + 0.15 * ?x" by (simp add: field_simps)
      from big True have gap: "?x > ?y + 5" by simp
      have 1: "min lo 0 \<le> 0.85 * ?x + 0.15 * ?y \<and> 0.85 * ?x + 0.15 * ?y \<le> max hi 0 \<and>
          (u \<in> S \<longrightarrow> lo \<le> 0.85 * ?x + 0.15 * ?y \<and> 0.85 * ?x + 0.15 * ?y \<le> hi)"
        using bx by' gap cfg by (auto simp: min_def max_def split: if_splits)
      have 2: "min lo 0 \<le> 0.85 * ?y + 0.15 * ?x \<and> 0.85 * ?y + 0.15 * ?x \<le> max hi 0 \<and>
          (v \<in> S \<longrightarrow> lo \<le> 0.85 * ?y + 0.15 * ?x \<and> 0.85 * ?y + 0.15 * ?x \<le> hi)"
        using bx by' gap cfg by (auto simp: min_def max_def split: if_splits)
      show ?thesis
        unfolding eq x' y' by (rule rates_near_update2 [OF near 1 2])
    next
      case False
      have eq: "smooth_pair rates (u, v) =
          AList.update v (?y - (?y - ?avg) * 0.3) (AList.update u (?x + (?avg - ?x) * 0.3) rates)"
        using inner big False by (simp add: smooth_pair_def Let_def)
      have x': "?x + (?avg - ?x) * 0.3 = 0.85 * ?x + 0.15 * ?y" by (simp add: field_simps)
      have y': "?y - (?y - ?avg) * 0.3 = 0.85 * ?y + 0.15 * ?x" by (simp add: field_simps)
      from big False have gap: "?y > ?x + 5" by simp
      have 1: "min lo 0 \<le> 0.85 * ?x + 0.15 * ?y \<and> 0.85 * ?x + 0.15 * ?y \<le> max hi 0 \<and>
          (u \<in> S \<longrightarrow> lo \<le> 0.85 * ?x + 0.15 * ?y \<and> 0.85 * ?x + 0.15 * ?y \<le> hi)"
        using bx by' gap cfg by (auto simp: min_def max_def split: if_splits)
      have 2: "min lo 0 \<le> 0.85 * ?y + 0.15 * ?x \<and> 0.85 * ?y + 0.15 * ?x \<le> max hi 0 \<and>
          (v \<in> S \<longrightarrow> lo \<le> 0.85 * ?y + 0.15 * ?x \<and> 0.85 * ?y + 0.15 * ?x \<le> hi)"
        using bx by' gap cfg by (auto simp: min_def max_def split: if_splits)
      show ?thesis
        unfolding eq x' y' by (rule rates_near_update2 [OF near 1 2])
    qed
  qed
qed

lemma smooth_all_near:
  assumes "rates_near lo hi S rates" and "lo \<le> hi" "lo \<le> 17 / 4" "- (17 / 4) \<le> hi"
  shows "rates_near lo hi S (fold (\<lambda>e r. smooth_pair r e) es rates)"
  using assms(1)
proof (induction es arbitrary: rates)
  case Nil
  then show ?case by simp
next
  case (Cons e es)
  obtain u v where e: "e = (u, v)" by (cases e)
  from smooth_pair_near [OF Cons.prems assms(2-4), of u v]
  show ?case by (simp add: e Cons.IH)
qed

lemma rates_within_near:
  "rates_within lo hi rates \<Longrightarrow> S \<subseteq> fst ` set rates \<Longrightarrow> rates_near lo hi S rates"
  unfolding rates_near_def rates_within_def
  by (auto simp: min_le_iff_disj le_max_iff_disj)

lemma star_nodes: "\<forall>s \<in> set star_spaces. has_node star (s_id s)"
  by code_simp

lemma star_exterior: "\<forall>e \<in> set [exterior_id]. has_node star e"
  by code_simp

lemma star_weights_nonneg: "weights_nonneg star"
  by code_simp

text \<open>
  C1. Let the low-range minimum be at most the high rate, and let either every edge of
  the graph join two spaces of the list or touch an exterior node (the graph of these
  spaces), or \<open>ACH_low_min \<le> 4.25\<close> and \<open>ACH_high \<ge> -4.25\<close> (as with the defaults 1 and
  10). Then whenever \<open>calculate_ach_rates\<close> completes, the smoothing of adjacent spaces
  included, every space of the input list has a stored ACH value, and it lies in
  \<open>[ACH_low_min, ACH_high]\<close>.
\<close>

theorem calculate_ach_rates_within_range:
  assumes "fst (low_ach_range config) \<le> high_ach config"
    and "(\<forall>(u, v) \<in> set (edges g).
            startswith u ''space_exterior'' \<or> startswith v ''space_exterior'' \<or>
            (u \<in> s_id ` set spaces \<and> v \<in> s_id ` set spaces)) \<or>
         (fst (low_ach_range config) \<le> 17 / 4 \<and> - (17 / 4) \<le> high_ach config)"
    and "calculate_ach_rates config spaces g exterior = Inr self"
    and "space \<in> set spaces"
  shows "\<exists>a. map_of (ach_rates self) (s_id space) = Some a \<and>
           fst (low_ach_range config) \<le> a \<and> a \<le> high_ach config"
proof -
  let ?lo = "fst (low_ach_range config)" and ?hi = "high_ach config"
  from assms(3) obtain self0 where
    loop: "rate_spaces config g exterior spaces \<lparr> ach_rates = [], ventilation_paths = [] \<rparr>
      = Inr self0" and
    self: "self = self0\<lparr> ach_rates := validate_ach_rates g (ach_rates self0) \<rparr>"
    by (auto simp: calculate_ach_rates_def split: sum.splits)
  have "rates_within ?lo ?hi (ach_rates \<lparr> ach_rates = [], ventilation_paths = [] \<rparr>)"
    by (simp add: rates_within_def)
  from rate_spaces_invariant [OF assms(1) loop this] have
    within: "rates_within ?lo ?hi (ach_rates self0)" and
    keys: "fst ` set (ach_rates self0) = s_id ` set spaces" by auto
  have near0: "rates_near ?lo ?hi (s_id ` set spaces) (ach_rates self0)"
    using within keys by (simp add: rates_within_near)
  have "rates_near ?lo ?hi (s_id ` set spaces) (ach_rates self)"
  proof (cases "fst (low_ach_range config) \<le> 17 / 4 \<and> - (17 / 4) \<le> high_ach config")
    case True
    with smooth_all_near [OF near0 assms(1)] show ?thesis
      by (simp add: self validate_ach_rates_def)
  next
    case False
    with assms(2) have "\<forall>(u, v) \<in> set (edges g).
        startswith u ''space_exterior'' \<or> startswith v ''space_exterior'' \<or>
        (u \<in> s_id ` set spaces \<and> v \<in> s_id ` set spaces)" by blast
    then have "\<forall>(u, v) \<in> set (edges g).
        startswith u ''space_exterior'' \<or> startswith v ''space_exterior'' \<or>
        (u \<in> fst ` set (ach_rates self0) \<and> v \<in> fst ` set (ach_rates self0))"
      unfolding keys .
    from smooth_all_within [OF within this] have
      "rates_within ?lo ?hi (ach_rates self)" and
      "fst ` set (ach_rates self) = s_id ` set spaces"
      by (simp_all add: self validate_ach_rates_def keys)
    then show ?thesis by (simp add: rates_within_near)
  qed
  then have final: "s_id ` set spaces \<subseteq> fst ` set (ach_rates self)" and
    bound: "\<And>k a. map_of (ach_rates self) k = Some a \<Longrightarrow> k \<in> s_id ` set spaces \<Longrightarrow>
       ?lo \<le> a \<and> a \<le> ?hi"
    by (auto simp: rates_near_def)
  from final assms(4) have "s_id space \<in> fst ` set (ach_rates self)" by auto
  then obtain a where a: "map_of (ach_rates self) (s_id space) = Some a"
    by (metis map_of_eq_None_iff not_Some_eq)
  with bound [OF a] assms(4) show ?thesis by auto
qed

theorem calculate_ach_rates_within_range_witness:
  "fst (low_ach_range default_config) \<le> high_ach default_config \<and>
   fst (low_ach_range default_config) \<le> 17 / 4 \<and>
   - (17 / 4) \<le> high_ach default_config \<and>
   room ''space_003'' \<in> set star_spaces \<and>
   (\<exists>self. calculate_ach_rates default_config star_spaces star [exterior_id] = Inr self \<and>
      (\<exists>a. map_of (ach_rates self) ''space_003'' = Some a \<and> 1 \<le> a \<and> a \<le> 10))"
proof -
  have cfg: "fst (low_ach_range default_config) \<le> high_ach default_config"
    by (simp add: default_config_def)
  have bounds: "fst (low_ach_range default_config) \<le> 17 / 4 \<and>
      - (17 / 4) \<le> high_ach default_config"
    by (simp add: default_config_def)
  have member: "room ''space_003'' \<in> set star_spaces"
    by (simp add: star_spaces_def)
  have "0 \<le> opening_influence default_config" by (simp add: default_config_def)
  from calculate_ach_rates_returns [OF star_weights_nonneg this star_exterior star_nodes]
  obtain self where
    run: "calculate_ach_rates default_config star_spaces star [exterior_id] = Inr self"
    by blast
  from calculate_ach_rates_within_range [OF cfg disjI2 [OF bounds] run member]
  have "\<exists>a. map_of (ach_rates self) ''space_003'' = Some a \<and> 1 \<le> a \<and> a \<le> 10"
    by (simp add: room_def default_config_def)
  with cfg bounds member run show ?thesis by blast
qed

section \<open>Reachability in the graph\<close>

lemma has_node_map_of: "has_node g n \<longleftrightarrow> map_of g n \<noteq> None"
  by (simp add: has_node_def nodes_def map_of_eq_None_iff)

lemma adj_not_node: "\<not> has_node g n \<Longrightarrow> adj g n = []"
  by (cases "map_of g n") (auto simp: has_node_map_of adj_def)

lemma adjacent_node: "(u, v) \<in> adjacent g \<Longrightarrow> has_node g u"
  by (rule ccontr) (simp add: adjacent_def neighbors_def adj_not_node)

lemma adj_append_node: "adj (g @ [(u, a, [])]) m = adj g m"
  by (cases "map_of g m") (auto simp: adj_def map_add_def split: option.splits)

lemma adjacent_append_node: "adjacent (g @ [(u, a, [])]) = adjacent g"
  by (simp add: adjacent_def neighbors_def adj_append_node)

lemma nodes_append_node: "nodes (g @ [(u, a, [])]) = nodes g @ [u]"
  by (simp add: nodes_def)

lemma adj_add_node: "adj (add_node g n a) m = adj g m"
proof (cases "map_of g n")
  case None
  then show ?thesis by (simp add: add_node_def adj_append_node)
next
  case (Some entry)
  then show ?thesis
    by (cases entry) (auto simp: add_node_def adj_def update_conv')
qed

lemma adjacent_add_node: "adjacent (add_node g n a) = adjacent g"
  by (simp add: adjacent_def neighbors_def adj_add_node)

lemma nodes_add_node: "set (nodes (add_node g n a)) = insert n (set (nodes g))"
proof (cases "map_of g n")
  case None
  then show ?thesis by (simp add: add_node_def nodes_def)
next
  case (Some entry)
  then have "n \<in> fst ` set g" by (metis map_of_eq_None_iff option.distinct(1))
  with Some show ?thesis
    by (cases entry) (simp add: add_node_def nodes_def keys_update insert_absorb)
qed

lemma nodes_set_adj: "set (nodes (set_adj g u v d)) = set (nodes g)"
proof (cases "map_of g u")
  case None
  then show ?thesis by (simp add: set_adj_def)
next
  case (Some entry)
  then have "u \<in> fst ` set g" by (metis map_of_eq_None_iff option.distinct(1))
  with Some show ?thesis
    by (cases entry) (simp add: set_adj_def nodes_def keys_update insert_absorb)
qed

lemma neighbors_set_adj:
  "set (neighbors (set_adj g u v d) m) =
     set (neighbors g m) \<union> (if m = u \<and> has_node g u then {v} else {})"
proof (cases "map_of g u")
  case None
  then show ?thesis by (simp add: set_adj_def has_node_map_of)
next
  case (Some entry)
  obtain attrs nbrs where entry: "entry = (attrs, nbrs)" by (cases entry)
  show ?thesis
  proof (cases "m = u")
    case True
    with Some entry show ?thesis
      by (simp add: set_adj_def neighbors_def adj_def update_conv' has_node_map_of
          keys_update)
  next
    case False
    with Some entry show ?thesis
      by (simp add: set_adj_def neighbors_def adj_def update_conv')
  qed
qed

lemma adjacent_set_adj:
  "adjacent (set_adj g u v d) = adjacent g \<union> (if has_node g u then {(u, v)} else {})"
  by (auto simp: adjacent_def neighbors_set_adj split: if_splits)

lemma has_node_set_adj: "has_node (set_adj g u v d) n = has_node g n"
  by (simp add: has_node_def nodes_set_adj)

lemma nodes_add_edge:
  "set (nodes (add_edge g u v a)) = insert u (insert v (set (nodes g)))"
  by (auto simp: add_edge_def Let_def nodes_set_adj nodes_append_node has_node_def)

lemma adjacent_add_edge: "adjacent (add_edge g u v a) = adjacent g \<union> {(u, v), (v, u)}"
proof -
  let ?g1 = "if has_node g u then g else g @ [(u, [], [])]"
  let ?g2 = "if has_node ?g1 v then ?g1 else ?g1 @ [(v, [], [])]"
  have adj2: "adjacent ?g2 = adjacent g" by (simp add: adjacent_append_node)
  have u: "has_node ?g2 u" and v: "has_node ?g2 v"
    by (auto simp: has_node_def nodes_append_node)
  show ?thesis
    unfolding add_edge_def Let_def
    using u v adj2 by (simp add: adjacent_set_adj has_node_set_adj) blast
qed

lemma set_next_level:
  "set (next_level g seen level) = (adjacent g `` set level) - set seen"
  by (auto simp: next_level_def adjacent_def)

lemma closed_rtrancl_image:
  assumes "\<forall>u \<in> A. \<forall>v. (u, v) \<in> R \<longrightarrow> v \<in> A"
  shows "R\<^sup>* `` A = A"
proof
  show "R\<^sup>* `` A \<subseteq> A"
  proof
    fix y assume "y \<in> R\<^sup>* `` A"
    then obtain x where x: "x \<in> A" and xy: "(x, y) \<in> R\<^sup>*" by auto
    from xy x show "y \<in> A"
      by (induction rule: rtrancl_induct) (use assms in auto)
  qed
  show "A \<subseteq> R\<^sup>* `` A" by auto
qed

lemma plain_bfs_closure:
  assumes "set level \<subseteq> set seen"
    and "\<forall>u \<in> set seen - set level. set (neighbors g u) \<subseteq> set seen"
  shows "set (plain_bfs g seen level) = (adjacent g)\<^sup>* `` set seen"
  using assms
proof (induction g seen level rule: plain_bfs.induct)
  case (1 g seen level)
  show ?case
  proof (cases "level = []")
    case True
    with "1.prems" have "\<forall>u \<in> set seen. \<forall>v. (u, v) \<in> adjacent g \<longrightarrow> v \<in> set seen"
      by (auto simp: adjacent_def)
    from closed_rtrancl_image [OF this] True show ?thesis
      by (subst plain_bfs.simps) simp
  next
    case False
    let ?new = "next_level g seen level"
    have new: "set ?new = (adjacent g `` set level) - set seen" by (rule set_next_level)
    have p1: "set ?new \<subseteq> set (seen @ ?new)" by simp
    have p2: "\<forall>u \<in> set (seen @ ?new) - set ?new. set (neighbors g u) \<subseteq> set (seen @ ?new)"
    proof
      fix u assume "u \<in> set (seen @ ?new) - set ?new"
      then have u: "u \<in> set seen" by auto
      show "set (neighbors g u) \<subseteq> set (seen @ ?new)"
      proof (cases "u \<in> set level")
        case True
        then show ?thesis by (auto simp: new adjacent_def)
      next
        case False
        with u "1.prems"(2) show ?thesis by auto
      qed
    qed
    from "1.IH" [OF False p1 p2] have
      "set (plain_bfs g (seen @ ?new) ?new) = (adjacent g)\<^sup>* `` set (seen @ ?new)" .
    moreover have "(adjacent g)\<^sup>* `` set (seen @ ?new) = (adjacent g)\<^sup>* `` set seen"
    proof -
      have "set ?new \<subseteq> (adjacent g)\<^sup>* `` set seen"
        using "1.prems"(1) by (auto simp: new)
      then have "(adjacent g)\<^sup>* `` set ?new \<subseteq> (adjacent g)\<^sup>* `` set seen"
        by (auto intro: rtrancl_trans)
      then show ?thesis by auto
    qed
    ultimately show ?thesis using False by (subst plain_bfs.simps) simp
  qed
qed

lemma node_component_reach: "set (node_component g n) = (adjacent g)\<^sup>* `` {n}"
  using plain_bfs_closure [of "[n]" "[n]" g] by (simp add: node_component_def)

lemma has_path_reach:
  "has_node g u \<Longrightarrow> has_node g v \<Longrightarrow> has_path g u v = Inr ((u, v) \<in> (adjacent g)\<^sup>*)"
  by (simp add: has_path_def node_component_reach)

lemma components_from_cover:
  "\<forall>c \<in> set (components_from g ns seen). \<exists>m \<in> set ns. c = node_component g m"
  by (induction ns arbitrary: seen) auto

lemma components_from_all:
  "n \<in> set ns \<Longrightarrow> n \<in> set seen \<or> (\<exists>c \<in> set (components_from g ns seen). n \<in> set c)"
proof (induction ns arbitrary: seen)
  case Nil
  then show ?case by simp
next
  case (Cons m ns)
  show ?case
  proof (cases "m \<in> set seen")
    case True
    with Cons show ?thesis by auto
  next
    case False
    show ?thesis
    proof (cases "n = m")
      case True
      with False show ?thesis by (auto simp: node_component_reach)
    next
      case False
      with Cons.prems have "n \<in> set ns" by simp
      from Cons.IH [OF this, of "seen @ node_component g m"] \<open>m \<notin> set seen\<close>
      show ?thesis by auto
    qed
  qed
qed

lemma connected_components_cover:
  "c \<in> set (connected_components g) \<Longrightarrow> \<exists>m \<in> set (nodes g). set c = (adjacent g)\<^sup>* `` {m}"
proof -
  assume "c \<in> set (connected_components g)"
  with components_from_cover [of g "nodes g" "[]"] obtain m where
    "m \<in> set (nodes g)" "c = node_component g m"
    by (auto simp: connected_components_def)
  then show ?thesis using node_component_reach [of g m] by blast
qed

lemma connected_components_all:
  "n \<in> set (nodes g) \<Longrightarrow> \<exists>c \<in> set (connected_components g). n \<in> set c"
  using components_from_all [of n "nodes g" "[]" g]
  by (simp add: connected_components_def)

lemma sym_component:
  assumes "sym R" "n \<in> R\<^sup>* `` {m}"
  shows "R\<^sup>* `` {m} = R\<^sup>* `` {n}"
proof -
  from assms(2) have mn: "(m, n) \<in> R\<^sup>*" by simp
  with assms(1) have nm: "(n, m) \<in> R\<^sup>*" by (meson sym_rtrancl symD)
  from mn nm show ?thesis by (auto intro: rtrancl_trans)
qed

section \<open>The calculator's dictionaries after a run\<close>

lemma smooth_pair_keys: "fst ` set rates \<subseteq> fst ` set (smooth_pair rates e)"
  by (cases e) (auto simp: smooth_pair_def Let_def keys_update)

lemma smooth_all_keys:
  "fst ` set rates \<subseteq> fst ` set (fold (\<lambda>e r. smooth_pair r e) es rates)"
proof (induction es arbitrary: rates)
  case Nil
  then show ?case by simp
next
  case (Cons e es)
  from smooth_pair_keys [of rates e] Cons.IH [of "smooth_pair rates e"]
  show ?case by auto
qed

lemma rate_spaces_keys:
  assumes "rate_spaces config g exts spaces self = Inr self'"
    and "distinct (map fst (ventilation_paths self))"
    and "fst ` set (ventilation_paths self) \<subseteq> fst ` set (ach_rates self)"
  shows "distinct (map fst (ventilation_paths self')) \<and>
         fst ` set (ventilation_paths self') \<subseteq> fst ` set (ach_rates self')"
  using assms
proof (induction spaces arbitrary: self)
  case Nil
  then show ?case by simp
next
  case (Cons space rest)
  from Cons.prems(1) obtain paths a where
    rest: "rate_spaces config g exts rest
      \<lparr> ach_rates = AList.update (s_id space) a (ach_rates self),
        ventilation_paths = AList.update (s_id space) paths (ventilation_paths self) \<rparr>
      = Inr self'"
    by (auto split: sum.splits)
  show ?case
    by (rule Cons.IH [OF rest])
      (use Cons.prems(2,3) in \<open>auto simp: distinct_update keys_update\<close>)
qed

text \<open>
  After \<open>calculate_ach_rates\<close> the path dictionary has distinct keys, and every key of
  it has a stored rate: the state in which the opening-state override is called.
\<close>

lemma calculate_ach_rates_well_formed:
  assumes "calculate_ach_rates config spaces g exterior = Inr self"
  shows "distinct (map fst (ventilation_paths self)) \<and>
         fst ` set (ventilation_paths self) \<subseteq> fst ` set (ach_rates self)"
proof -
  from assms obtain self0 where
    loop: "rate_spaces config g exterior spaces \<lparr> ach_rates = [], ventilation_paths = [] \<rparr>
      = Inr self0" and
    self: "self = self0\<lparr> ach_rates := validate_ach_rates g (ach_rates self0) \<rparr>"
    by (auto simp: calculate_ach_rates_def split: sum.splits)
  from rate_spaces_keys [OF loop] have
    "distinct (map fst (ventilation_paths self0))"
    "fst ` set (ventilation_paths self0) \<subseteq> fst ` set (ach_rates self0)"
    by simp_all
  with smooth_all_keys [of "ach_rates self0" "edges g"] show ?thesis
    by (auto simp: self validate_ach_rates_def)
qed

section \<open>Results on the repair of the topology\<close>

lemma add_spaces_graph:
  "set (nodes (space_graph (fold (\<lambda>space b. add_space b space) spaces b0)))
     = set (nodes (space_graph b0)) \<union> s_id ` set spaces \<and>
   adjacent (space_graph (fold (\<lambda>space b. add_space b space) spaces b0))
     = adjacent (space_graph b0) \<and>
   exterior_nodes (fold (\<lambda>space b. add_space b space) spaces b0) = exterior_nodes b0"
proof (induction spaces arbitrary: b0)
  case Nil
  then show ?case by simp
next
  case (Cons space spaces)
  show ?case
    by (simp add: Cons.IH [of "add_space b0 space"])
      (auto simp: add_space_def nodes_add_node adjacent_add_node)
qed

lemma add_spaces_other:
  "k \<notin> s_id ` set spaces \<Longrightarrow>
     map_of (space_properties (fold (\<lambda>space b. add_space b space) spaces b0)) k
       = map_of (space_properties b0) k"
  by (induction spaces arbitrary: b0) (auto simp: add_space_def update_conv')

lemma add_spaces_properties:
  "k \<in> s_id ` set spaces \<Longrightarrow>
     \<exists>s \<in> set spaces.
       map_of (space_properties (fold (\<lambda>space b. add_space b space) spaces b0)) k = Some s"
proof (induction spaces arbitrary: b0)
  case Nil
  then show ?case by simp
next
  case (Cons space spaces)
  show ?case
  proof (cases "k \<in> s_id ` set spaces")
    case True
    from Cons.IH [OF this, of "add_space b0 space"] show ?thesis by auto
  next
    case False
    with Cons.prems have k: "k = s_id space" by auto
    from add_spaces_other [OF False, of "add_space b0 space"] k
    show ?thesis by (simp add: add_space_def update_conv')
  qed
qed

lemma well_formed_add_edge:
  assumes "well_formed g" "has_node g u" "has_node g v"
  shows "well_formed (add_edge g u v a)" and "set (nodes (add_edge g u v a)) = set (nodes g)"
proof -
  show n: "set (nodes (add_edge g u v a)) = set (nodes g)"
    using assms(2,3) by (auto simp: nodes_add_edge has_node_def)
  show "well_formed (add_edge g u v a)"
    using assms n
    by (auto simp: well_formed_def adjacent_add_edge has_node_def sym_def)
qed

lemma connect_opening_effect:
  assumes "connect_opening g opening = Inr g'" "well_formed g"
  shows "well_formed g' \<and> set (nodes g') = set (nodes g) \<and> adjacent g \<subseteq> adjacent g'"
proof -
  let ?listed = "get_default [] (o_connects opening)"
  let ?cs = "if length ?listed = 1 then ?listed @ [exterior_id] else ?listed"
  show ?thesis
  proof (cases "\<exists>u v. ?cs = [u, v] \<and> has_node g u \<and> has_node g v")
    case False
    then have "g' = g"
      using assms(1)
      by (auto simp: connect_opening_def Let_def split: list.splits if_splits)
    with assms(2) show ?thesis by simp
  next
    case True
    then obtain u v where cs: "?cs = [u, v]" and u: "has_node g u" and v: "has_node g v"
      by blast
    show ?thesis
    proof (cases "get_edge_data g u v")
      case None
      with assms(1) cs u v obtain a where "g' = add_edge g u v a"
        by (auto simp: connect_opening_def Let_def split: option.splits)
      with well_formed_add_edge [OF assms(2) u v] show ?thesis
        by (auto simp: adjacent_add_edge)
    next
      case (Some edge)
      with assms(1) cs u v obtain d where g': "g' = set_adj (set_adj g u v d) v u d"
        by (auto simp: connect_opening_def Let_def split: option.splits)
      have adj': "adjacent g' = adjacent g \<union> {(u, v), (v, u)}"
        using u v by (auto simp: g' adjacent_set_adj has_node_set_adj)
      have nodes': "set (nodes g') = set (nodes g)"
        by (simp add: g' nodes_set_adj)
      from assms(2) u v adj' nodes' have "well_formed g'"
        by (auto simp: well_formed_def has_node_def sym_def)
      with adj' nodes' show ?thesis by auto
    qed
  qed
qed

lemma connect_openings_effect:
  assumes "connect_openings g openings = Inr g'" "well_formed g"
  shows "well_formed g' \<and> set (nodes g') = set (nodes g)"
  using assms
proof (induction openings arbitrary: g)
  case Nil
  then show ?case by simp
next
  case (Cons item rest)
  from Cons.prems(1) obtain g1 where
    first: "connect_opening g item = Inr g1" and
    others: "connect_openings g1 rest = Inr g'"
    by (auto split: sum.splits)
  from connect_opening_effect [OF first Cons.prems(2)] Cons.IH [OF others]
  show ?case by auto
qed

lemma map_of_map_entries:
  "map_of (map (\<lambda>(n, attrs, nbrs). (n, f n attrs, nbrs)) g) m
     = map_option (\<lambda>(attrs, nbrs). (f m attrs, nbrs)) (map_of g m)"
  by (induction g) auto

lemma calculate_topology_properties_effect:
  assumes "calculate_topology_properties betweenness closeness g = Inr g'"
  shows "nodes g' = nodes g \<and> adjacent g' = adjacent g"
proof (cases "g' = g")
  case True
  then show ?thesis by simp
next
  case False
  define f where
    "f = (\<lambda>n attrs. dict_update attrs (centrality_attrs (betweenness g) (closeness g) g n))"
  from False assms have g': "g' = map (\<lambda>(n, attrs, nbrs). (n, f n attrs, nbrs)) g"
    by (auto simp: calculate_topology_properties_def Let_def f_def split: if_splits)
  have "nodes g' = nodes g"
    by (simp add: g' nodes_def comp_def case_prod_unfold)
  moreover have "adj g' m = adj g m" for m
    by (cases "map_of g m") (auto simp: g' adj_def map_of_map_entries)
  ultimately show ?thesis by (simp add: adjacent_def neighbors_def)
qed

lemma largest_from_some:
  "fst (largest_space_from props ns (Some b, v)) \<in> Some ` insert b (set ns)"
proof (induction ns arbitrary: b v)
  case Nil
  then show ?case by simp
next
  case (Cons n ns)
  show ?case
  proof (cases "map_of props n")
    case None
    with Cons.IH [of b v] show ?thesis by auto
  next
    case (Some s)
    with Cons.IH [of b v] Cons.IH [of n "get_default 0 (s_volume s)"] show ?thesis
      by (auto simp: Let_def)
  qed
qed

lemma largest_from_any:
  "fst (largest_space_from props ns (None, v)) \<in> insert None (Some ` set ns)"
proof (induction ns arbitrary: v)
  case Nil
  then show ?case by simp
next
  case (Cons n ns)
  show ?case
  proof (cases "map_of props n")
    case None
    with Cons.IH [of v] show ?thesis by auto
  next
    case (Some s)
    with Cons.IH [of v] largest_from_some [of props ns n "get_default 0 (s_volume s)"]
    show ?thesis by (auto simp: Let_def)
  qed
qed

lemma largest_from_none:
  assumes "ns \<noteq> []"
    and "\<forall>n \<in> set ns. \<exists>s. map_of props n = Some s \<and> 0 < get_default 0 (s_volume s)"
  shows "fst (largest_space_from props ns (None, 0)) \<in> Some ` set ns"
proof -
  from assms(1) obtain n rest where ns: "ns = n # rest" by (cases ns) auto
  with assms(2) obtain s where s: "map_of props n = Some s" "0 < get_default 0 (s_volume s)"
    by auto
  with largest_from_some [of props rest n "get_default 0 (s_volume s)"]
  show ?thesis by (auto simp: ns Let_def)
qed

lemma repair_component_mono:
  "adjacent g \<subseteq> adjacent (repair_component iter_order self ec g c)"
  by (auto simp: repair_component_def Let_def adjacent_add_edge)

lemma repair_component_nodes:
  assumes "\<forall>xs. set (iter_order xs) = set xs" "exterior_nodes self = [exterior_id]"
    and "set c \<subseteq> set (nodes g)" "exterior_id \<in> set (nodes g)"
  shows "set (nodes (repair_component iter_order self ec g c)) = set (nodes g)"
proof -
  let ?l = "fst (largest_space_from (space_properties self) (iter_order c) (None, 0))"
  from largest_from_any [of "space_properties self" "iter_order c" 0] assms(1)
  have "?l = None \<or> (\<exists>l \<in> set c. ?l = Some l)" by auto
  with assms(2-4) show ?thesis
    by (auto simp: repair_component_def Let_def nodes_add_edge truthy_def)
qed

lemma repair_component_edge:
  assumes "exterior_nodes self = [exterior_id]" "set c \<noteq> set ec"
    and "repairable iter_order self c"
  shows "\<exists>l \<in> set c. (l, exterior_id) \<in> adjacent (repair_component iter_order self ec g c)"
proof -
  from assms(3) obtain l where l: "l \<in> set c" "l \<noteq> []"
    "fst (largest_space_from (space_properties self) (iter_order c) (None, 0)) = Some l"
    by (auto simp: repairable_def)
  with assms(1,2) have
    "repair_component iter_order self ec g c = add_edge g l exterior_id repair_edge"
    by (simp add: repair_component_def Let_def truthy_def exterior_id_def)
  with l(1) show ?thesis by (auto simp: adjacent_add_edge)
qed

lemma repair_all:
  assumes "\<forall>xs. set (iter_order xs) = set xs" "exterior_nodes self = [exterior_id]"
    and "\<forall>c \<in> set cs. set c \<subseteq> set (nodes g)" "exterior_id \<in> set (nodes g)"
    and "\<forall>c \<in> set cs. set c \<noteq> set ec \<longrightarrow> repairable iter_order self c"
  shows "set (nodes (fold (\<lambda>c g. repair_component iter_order self ec g c) cs g))
           = set (nodes g) \<and>
         adjacent g \<subseteq> adjacent (fold (\<lambda>c g. repair_component iter_order self ec g c) cs g) \<and>
         (\<forall>c \<in> set cs. set c \<noteq> set ec \<longrightarrow>
            (\<exists>l \<in> set c. (l, exterior_id)
               \<in> adjacent (fold (\<lambda>c g. repair_component iter_order self ec g c) cs g)))"
  using assms(3-5)
proof (induction cs arbitrary: g)
  case Nil
  then show ?case by simp
next
  case (Cons c cs)
  let ?g1 = "repair_component iter_order self ec g c"
  let ?G = "fold (\<lambda>c g. repair_component iter_order self ec g c) cs ?g1"
  have n1: "set (nodes ?g1) = set (nodes g)"
    using Cons.prems by (intro repair_component_nodes [OF assms(1,2)]) auto
  have a1: "adjacent g \<subseteq> adjacent ?g1" by (rule repair_component_mono)
  have ih: "set (nodes ?G) = set (nodes ?g1) \<and> adjacent ?g1 \<subseteq> adjacent ?G \<and>
      (\<forall>c \<in> set cs. set c \<noteq> set ec \<longrightarrow> (\<exists>l \<in> set c. (l, exterior_id) \<in> adjacent ?G))"
    using Cons.prems n1 by (intro Cons.IH) auto
  have first: "set c \<noteq> set ec \<longrightarrow> (\<exists>l \<in> set c. (l, exterior_id) \<in> adjacent ?G)"
  proof
    assume ne: "set c \<noteq> set ec"
    with Cons.prems(3) have "repairable iter_order self c" by simp
    from repair_component_edge [OF assms(2) ne this, of g] ih
    show "\<exists>l \<in> set c. (l, exterior_id) \<in> adjacent ?G" by blast
  qed
  from ih n1 a1 first show ?case by auto
qed

lemma reach_nodes:
  assumes "well_formed g" "(m, n) \<in> (adjacent g)\<^sup>*" "has_node g m"
  shows "has_node g n"
  using assms(2,3)
proof (induction rule: rtrancl_induct)
  case base
  then show ?case .
next
  case (step y z)
  with assms(1) show ?case by (auto simp: well_formed_def)
qed

lemma same_component_reach:
  assumes "sym R" "n \<in> R\<^sup>* `` {m}" "e \<in> R\<^sup>* `` {m}"
  shows "(n, e) \<in> R\<^sup>*"
proof -
  from assms(2) have "(m, n) \<in> R\<^sup>*" by simp
  with assms(1) have "(n, m) \<in> R\<^sup>*" by (meson sym_rtrancl symD)
  moreover from assms(3) have "(m, e) \<in> R\<^sup>*" by simp
  ultimately show ?thesis by (rule rtrancl_trans)
qed

lemma validate_topology_connected:
  assumes order: "\<forall>xs. set (iter_order xs) = set xs"
    and ext: "exterior_nodes self = [exterior_id]"
    and wf: "well_formed (space_graph self)"
    and ext_node: "exterior_id \<in> set (nodes (space_graph self))"
    and volumes: "\<forall>n \<in> set (nodes (space_graph self)) - {exterior_id}.
        \<exists>s. map_of (space_properties self) n = Some s \<and> 0 < get_default 0 (s_volume s)"
    and named: "[] \<notin> set (nodes (space_graph self))"
  shows "set (nodes (space_graph (validate_topology iter_order self)))
           = set (nodes (space_graph self)) \<and>
         exterior_nodes (validate_topology iter_order self) = [exterior_id] \<and>
         (\<forall>n \<in> set (nodes (space_graph self)).
            (n, exterior_id) \<in> (adjacent (space_graph (validate_topology iter_order self)))\<^sup>*)"
proof -
  let ?g = "space_graph self"
  let ?R = "adjacent ?g"
  let ?cs = "connected_components ?g"
  have symR: "sym ?R" using wf by (simp add: well_formed_def)
  have comp: "\<exists>m \<in> set (nodes ?g). set c = ?R\<^sup>* `` {m}" if "c \<in> set ?cs" for c
    using connected_components_cover [OF that] .
  have inside: "set c \<subseteq> set (nodes ?g)" if "c \<in> set ?cs" for c
  proof
    fix n assume n: "n \<in> set c"
    from comp [OF that] obtain m where m: "m \<in> set (nodes ?g)" "set c = ?R\<^sup>* `` {m}" by blast
    with n have "(m, n) \<in> ?R\<^sup>*" by simp
    from reach_nodes [OF wf this] m(1) show "n \<in> set (nodes ?g)" by (simp add: has_node_def)
  qed
  have together: "(n, e) \<in> ?R\<^sup>*" if "c \<in> set ?cs" "n \<in> set c" "e \<in> set c" for c n e
  proof -
    from comp [OF that(1)] obtain m where "set c = ?R\<^sup>* `` {m}" by blast
    with that(2,3) show ?thesis by (auto intro: same_component_reach [OF symR])
  qed
  from connected_components_all [OF ext_node] obtain c0 where
    c0: "c0 \<in> set ?cs" "exterior_id \<in> set c0" by blast
  show ?thesis
  proof (cases "length ?cs > 1")
    case False
    then have same: "validate_topology iter_order self = self"
      by (simp add: validate_topology_def Let_def)
    have "(n, exterior_id) \<in> ?R\<^sup>*" if "n \<in> set (nodes ?g)" for n
    proof -
      from connected_components_all [OF that] obtain c where c: "c \<in> set ?cs" "n \<in> set c"
        by blast
      from False c(1) c0(1) have "c = c0"
        by (cases ?cs) (auto split: if_splits)
      with c c0 show ?thesis by (auto intro: together)
    qed
    with same ext show ?thesis by simp
  next
    case True
    let ?P = "\<lambda>component. \<exists>node \<in> set component. node \<in> set (exterior_nodes self)"
    from c0 ext have "\<exists>c \<in> set ?cs. ?P c" by auto
    then obtain ec where found: "find ?P ?cs = Some ec"
      by (cases "find ?P ?cs") (auto simp: find_None_iff)
    then have ec: "ec \<in> set ?cs" "exterior_id \<in> set ec"
      using ext by (auto simp: find_Some_iff)
    let ?G = "fold (\<lambda>component g. repair_component iter_order self ec g component) ?cs ?g"
    have result: "validate_topology iter_order self = self\<lparr> space_graph := ?G \<rparr>"
      using True found by (simp add: validate_topology_def Let_def)
    have other: "exterior_id \<notin> set c" if "c \<in> set ?cs" "set c \<noteq> set ec" for c
    proof
      assume e: "exterior_id \<in> set c"
      from comp [OF that(1)] obtain m where m: "set c = ?R\<^sup>* `` {m}" by blast
      from comp [OF ec(1)] obtain m' where m': "set ec = ?R\<^sup>* `` {m'}" by blast
      from sym_component [OF symR, of exterior_id m] e m
      have "set c = ?R\<^sup>* `` {exterior_id}" by simp
      moreover from sym_component [OF symR, of exterior_id m'] ec(2) m'
      have "set ec = ?R\<^sup>* `` {exterior_id}" by simp
      ultimately show False using that(2) by simp
    qed
    have rep: "\<forall>c \<in> set ?cs. set c \<noteq> set ec \<longrightarrow> repairable iter_order self c"
    proof (intro ballI impI)
      fix c assume c: "c \<in> set ?cs" and ne: "set c \<noteq> set ec"
      from comp [OF c] have nonempty: "c \<noteq> []" by auto
      with order have o1: "iter_order c \<noteq> []" by (metis set_empty)
      have "\<forall>n \<in> set (iter_order c).
          \<exists>s. map_of (space_properties self) n = Some s \<and> 0 < get_default 0 (s_volume s)"
        using order inside [OF c] other [OF c ne] volumes by auto
      from largest_from_none [OF o1 this] order obtain l where
        l: "l \<in> set c"
        "fst (largest_space_from (space_properties self) (iter_order c) (None, 0)) = Some l"
        by auto
      from l(1) inside [OF c] named have "l \<noteq> []" by auto
      with l show "repairable iter_order self c" by (auto simp: repairable_def)
    qed
    have ins: "\<forall>c \<in> set ?cs. set c \<subseteq> set (nodes ?g)" using inside by blast
    from repair_all [OF order ext ins ext_node rep] have
      nodes: "set (nodes ?G) = set (nodes ?g)" and
      mono: "?R \<subseteq> adjacent ?G" and
      edge: "\<And>c. c \<in> set ?cs \<Longrightarrow> set c \<noteq> set ec \<Longrightarrow>
          \<exists>l \<in> set c. (l, exterior_id) \<in> adjacent ?G"
      by auto
    have lift: "(a, b) \<in> (adjacent ?G)\<^sup>*" if "(a, b) \<in> ?R\<^sup>*" for a b
      using rtrancl_mono [OF mono] that by blast
    have "(n, exterior_id) \<in> (adjacent ?G)\<^sup>*" if "n \<in> set (nodes ?g)" for n
    proof -
      from connected_components_all [OF that] obtain c where c: "c \<in> set ?cs" "n \<in> set c"
        by blast
      show ?thesis
      proof (cases "set c = set ec")
        case True
        with ec(2) have "exterior_id \<in> set c" by simp
        from together [OF c this] show ?thesis by (rule lift)
      next
        case False
        from edge [OF c(1) False] obtain l where
          l: "l \<in> set c" "(l, exterior_id) \<in> adjacent ?G" by blast
        from together [OF c l(1)] have "(n, l) \<in> (adjacent ?G)\<^sup>*" by (rule lift)
        then show ?thesis using l(2) by (rule rtrancl_into_rtrancl)
      qed
    qed
    with nodes ext show ?thesis by (simp add: result)
  qed
qed

lemma isolated_among_none:
  assumes "exterior_nodes self = [exterior_id]" "has_node (space_graph self) exterior_id"
    and "\<forall>n \<in> set ns. has_node (space_graph self) n \<and>
           (n, exterior_id) \<in> (adjacent (space_graph self))\<^sup>*"
  shows "isolated_among self ns = Inr []"
  using assms(3)
proof (induction ns)
  case Nil
  then show ?case by simp
next
  case (Cons n ns)
  then have "has_path (space_graph self) n exterior_id = Inr True"
    using assms(2) by (simp add: has_path_reach)
  with Cons assms(1) show ?case by simp
qed

text \<open>
  When every space has a positive volume and an identifier that is not the empty string,
  and \<open>build_topology\<close> returns, every node of the returned graph has a path to the
  exterior node and the list of isolated spaces is empty. (The order in which a component
  is iterated is any enumeration of it; the builder is new or has built before.)
\<close>

lemma build_topology_connected:
  assumes order: "\<forall>xs. set (iter_order xs) = set xs"
    and volumes: "\<forall>space \<in> set spaces. \<exists>v. s_volume space = Some v \<and> 0 < v"
    and named: "\<forall>space \<in> set spaces. s_id space \<noteq> []"
    and fresh: "exterior_nodes self = [] \<or> exterior_nodes self = [exterior_id]"
    and run: "build_topology betweenness closeness iter_order self spaces openings
        = Inr (result, self')"
  shows "t_isolated_spaces result = [] \<and>
         (\<forall>n \<in> set (nodes (t_space_graph result)).
            (n, exterior_id) \<in> (adjacent (t_space_graph result))\<^sup>*)"
proof -
  let ?self1 = "fold (\<lambda>space b. add_space b space) spaces (self\<lparr> space_graph := [] \<rparr>)"
  let ?g2 = "add_node (space_graph ?self1) exterior_id exterior_attrs"
  let ?self2 = "?self1\<lparr> space_graph := ?g2,
      exterior_nodes := List.insert exterior_id (exterior_nodes ?self1) \<rparr>"
  from run obtain g3 g4 isolated where
    g3: "connect_openings ?g2 openings = Inr g3" and
    g4: "calculate_topology_properties betweenness closeness g3 = Inr g4" and
    iso: "find_isolated_spaces (validate_topology iter_order (?self2\<lparr> space_graph := g4 \<rparr>))
      = Inr isolated" and
    result: "result = \<lparr> t_space_graph =
        space_graph (validate_topology iter_order (?self2\<lparr> space_graph := g4 \<rparr>)),
      t_exterior_nodes =
        exterior_nodes (validate_topology iter_order (?self2\<lparr> space_graph := g4 \<rparr>)),
      t_isolated_spaces = isolated \<rparr>"
    by (auto simp: build_topology_def Let_def split: sum.splits)
  let ?self3 = "?self2\<lparr> space_graph := g4 \<rparr>"
  note built = add_spaces_graph [of spaces "self\<lparr> space_graph := [] \<rparr>"]
  have empty: "adjacent [] = {}" "nodes [] = []"
    by (simp_all add: adjacent_def neighbors_def adj_def nodes_def)
  have nodes2: "set (nodes ?g2) = insert exterior_id (s_id ` set spaces)"
    using built by (simp add: nodes_add_node empty)
  have adj2: "adjacent ?g2 = {}"
    using built by (simp add: adjacent_add_node empty)
  have wf2: "well_formed ?g2" by (simp add: well_formed_def adj2 sym_def)
  from connect_openings_effect [OF g3 wf2] have
    wf3: "well_formed g3" and nodes3: "set (nodes g3) = set (nodes ?g2)" by auto
  from calculate_topology_properties_effect [OF g4] have
    nodes4: "nodes g4 = nodes g3" and adj4: "adjacent g4 = adjacent g3" by auto
  have wf4: "well_formed g4"
    using wf3 by (simp add: well_formed_def adj4 has_node_def nodes4)
  have nodes4': "set (nodes g4) = insert exterior_id (s_id ` set spaces)"
    by (simp add: nodes4 nodes3 nodes2)
  have ext3: "exterior_nodes ?self3 = [exterior_id]"
    using fresh built by auto
  have props: "\<forall>n \<in> set (nodes (space_graph ?self3)) - {exterior_id}.
      \<exists>s. map_of (space_properties ?self3) n = Some s \<and> 0 < get_default 0 (s_volume s)"
  proof
    fix n assume "n \<in> set (nodes (space_graph ?self3)) - {exterior_id}"
    then have "n \<in> s_id ` set spaces" by (auto simp: nodes4')
    from add_spaces_properties [OF this, of "self\<lparr> space_graph := [] \<rparr>"] obtain s where
      s: "s \<in> set spaces" "map_of (space_properties ?self1) n = Some s" by blast
    with volumes show
      "\<exists>s. map_of (space_properties ?self3) n = Some s \<and> 0 < get_default 0 (s_volume s)"
      by (auto simp: get_default_def)
  qed
  have named3: "[] \<notin> set (nodes (space_graph ?self3))"
    using named by (auto simp: nodes4' exterior_id_def)
  have "set (nodes (space_graph (validate_topology iter_order ?self3)))
        = set (nodes (space_graph ?self3)) \<and>
      exterior_nodes (validate_topology iter_order ?self3) = [exterior_id] \<and>
      (\<forall>n \<in> set (nodes (space_graph ?self3)).
         (n, exterior_id) \<in> (adjacent (space_graph (validate_topology iter_order ?self3)))\<^sup>*)"
    by (rule validate_topology_connected [OF order ext3 _ _ props named3])
      (simp_all add: wf4 nodes4')
  then have
    n5: "set (nodes (space_graph (validate_topology iter_order ?self3))) = set (nodes g4)" and
    e5: "exterior_nodes (validate_topology iter_order ?self3) = [exterior_id]" and
    r5: "\<forall>n \<in> set (nodes g4).
      (n, exterior_id) \<in> (adjacent (space_graph (validate_topology iter_order ?self3)))\<^sup>*"
    by simp_all
  have "isolated_among (validate_topology iter_order ?self3)
      (nodes (space_graph (validate_topology iter_order ?self3))) = Inr []"
    by (rule isolated_among_none [OF e5])
      (use n5 r5 nodes4' in \<open>auto simp: has_node_def\<close>)
  with iso have "isolated = []" by (simp add: find_isolated_spaces_def)
  with result n5 r5 show ?thesis by simp
qed

text \<open>The repair pass at work: the third space of the sealed example gets a repair edge.\<close>

lemma sealed_edges:
  "map_sum id (edges \<circ> t_space_graph \<circ> fst)
     (build_topology (chain_betweenness ''space_002'') (chain_closeness ''space_002'')
        listed_order new_builder sealed_spaces chain_openings)
   = Inr [(''space_000'', ''space_001''), (''space_001'', ''space_exterior''),
          (''space_002'', ''space_exterior'')]"
  by code_simp

lemma unnamed_edges:
  "map_sum id (edges \<circ> t_space_graph \<circ> fst)
     (build_topology (chain_betweenness []) (chain_closeness [])
        listed_order new_builder unnamed_spaces chain_openings)
   = Inr [(''space_000'', ''space_001''), (''space_001'', ''space_exterior'')]"
  by code_simp


end
